theory Spec2Isabelle
  imports Complex_Main "HOL-Library.Sublist"
begin

section \<open>Python values used by \<open>main.py\<close>\<close>

subsection \<open>Exceptions\<close>

text \<open>
  The exceptions that the modelled code raises. An f-string message is kept as its
  literal prefix together with the interpolated object, which is not rendered to text:
  \<open>Exception(f"PDF processing failed: {response.text}")\<close> is
  \<open>ExceptionText ''PDF processing failed: '' text\<close>, and
  \<open>Exception(f"Processing error: {status}")\<close> is
  \<open>ExceptionJson ''Processing error: '' status\<close>. The errors of the file system carry
  the file name, and the TypeError that tqdm raises carries nothing.
\<close>

datatype json = JNull | JBool bool | JNum rat | JStr string
  | JList "json list" | JObj "(string \<times> json) list"

text \<open>
  A parsed JSON object (a Python dict) is the list of its items; \<open>map_of\<close> looks a
  key up.
\<close>

type_synonym json_obj = "(string \<times> json) list"

datatype py_error =
    EnvironmentError string
  | ExceptionText string string
  | ExceptionJson string json_obj
  | TimeoutError string
  | KeyError string
  | OverflowError string
  | JSONDecodeError
  | FileNotFoundError string
  | TypeError
  | FileExistsError string
  | NotADirectoryError string
  | IsADirectoryError string

subsection \<open>Floats: IEEE 754 binary64 with round-to-nearest-even\<close>

text \<open>
  A finite Python float is represented by the rational number it denotes; the two zeros
  are not distinguished (Python's \<open>==\<close> does not distinguish them either).
  \<open>round_double\<close> rounds a rational to the nearest number with a 53-bit significand
  (ties to even), with gradual underflow below \<open>2^-1022\<close> and no upper limit on the
  exponent: the callers test the result against \<open>2^1024\<close>.
\<close>

definition pow2 :: "int \<Rightarrow> rat" where
  "pow2 e = (if 0 \<le> e then 2 ^ nat e else 1 / 2 ^ nat (- e))"

function bit_length :: "int \<Rightarrow> int" where
  "bit_length n = (if n \<le> 0 then 0 else 1 + bit_length (n div 2))"
  by pat_completeness auto
termination
  by (relation "measure nat") auto

definition ilog2 :: "rat \<Rightarrow> int" where
  "ilog2 x = (case quotient_of x of (p, q) \<Rightarrow>
     (let d = bit_length p - bit_length q
      in if pow2 d \<le> x then d else d - 1))"

definition round_half_even :: "rat \<Rightarrow> int" where
  "round_half_even q = (let f = \<lfloor>q\<rfloor>; r = q - of_int f in
     if r < 1 / 2 then f else if 1 / 2 < r then f + 1 else if even f then f else f + 1)"

definition round_double :: "rat \<Rightarrow> rat" where
  "round_double x = (if x = 0 then 0 else
     (let e = max (ilog2 \<bar>x\<bar>) (- 1022); ulp = pow2 (e - 52)
      in of_int (round_half_even (x / ulp)) * ulp))"

text \<open>The exponent that \<open>round_double\<close> gives to the unit in the last place.\<close>

definition fexp :: "rat \<Rightarrow> int" where
  "fexp x = max (ilog2 \<bar>x\<bar>) (- 1022)"

datatype pyfloat = Fin rat | PosInf | NegInf

text \<open>A decimal literal of the source denotes the double nearest to it.\<close>

definition float_literal :: "rat \<Rightarrow> rat" where
  "float_literal q = round_double q"

text \<open>
  \<open>int * float\<close> first converts the int to a float, which raises OverflowError when
  the rounded value does not fit, and then multiplies two floats, which overflows to an
  infinity without raising.
\<close>

definition float_of_int :: "int \<Rightarrow> py_error + rat" where
  "float_of_int n = (let r = round_double (of_int n) in
     if 2 ^ 1024 \<le> \<bar>r\<bar> then Inl (OverflowError ''int too large to convert to float'')
     else Inr r)"

definition float_mul :: "rat \<Rightarrow> rat \<Rightarrow> pyfloat" where
  "float_mul x y = (let r = round_double (x * y) in
     if 2 ^ 1024 \<le> r then PosInf else if r \<le> - (2 ^ 1024) then NegInf else Fin r)"

definition int_mul_float :: "int \<Rightarrow> rat \<Rightarrow> py_error + pyfloat" where
  "int_mul_float n y = (case float_of_int n of
     Inl e \<Rightarrow> Inl e
   | Inr x \<Rightarrow> Inr (float_mul x y))"

text \<open>
  \<open>timedelta.total_seconds()\<close> is the true division of the microseconds by \<open>10**6\<close>,
  correctly rounded to a float. A timedelta is represented by its number of microseconds.
\<close>

definition total_seconds :: "int \<Rightarrow> rat" where
  "total_seconds us = round_double (of_int us / 1000000)"

section \<open>Configuration of \<open>main.py\<close>\<close>

text \<open>
  The module constants. \<open>json.dumps(PROCESSING_OPTIONS)\<close> is not rendered to text: the
  request carries the options as a JSON value.
\<close>

definition PROCESSING_OPTIONS :: json where
  "PROCESSING_OPTIONS = JObj
     [(''conversion_formats'',
         JObj [(''md'', JBool True), (''tex.zip'', JBool True), (''html'', JBool True)]),
      (''math_inline_delimiters'', JList [JStr ''$'', JStr ''$'']),
      (''math_display_delimiters'', JList [JStr ''$$'', JStr ''$$'']),
      (''rm_spaces'', JBool True),
      (''enable_tables_fallback'', JBool True),
      (''include_equation_tags'', JBool True),
      (''numbers_default_to_math'', JBool True)]"

definition API_BASE_URL :: string where
  "API_BASE_URL = ''https://api.mathpix.com/v3''"

definition API_ENDPOINTS_pdf :: string where
  "API_ENDPOINTS_pdf = API_BASE_URL @ ''/pdf''"

definition API_ENDPOINTS_status :: "string \<Rightarrow> string" where
  "API_ENDPOINTS_status pdf_id = API_BASE_URL @ ''/pdf/'' @ pdf_id"

definition API_ENDPOINTS_download :: "string \<Rightarrow> string \<Rightarrow> string" where
  "API_ENDPOINTS_download pdf_id fmt = API_BASE_URL @ ''/pdf/'' @ pdf_id @ ''.'' @ fmt"

definition POLLING_INTERVAL :: int where
  "POLLING_INTERVAL = 2"

definition TIMEOUT :: int where
  "TIMEOUT = 600"

definition OUTPUT_FORMATS :: "(string \<times> string) list" where
  "OUTPUT_FORMATS =
     [(''mmd'', ''Mathpix Markdown''),
      (''tex.zip'', ''LaTeX with images''),
      (''html'', ''HTML rendering'')]"

section \<open>The environment: HTTP service, clock, file system\<close>

subsection \<open>HTTP\<close>

text \<open>
  \<open>requests.get(url, headers=...)\<close> and
  \<open>requests.post(url, headers=..., files=..., data=...)\<close>. A response has its status
  code, its body (\<open>response.content\<close>, and \<open>response.text\<close> as its decoding), the
  object that \<open>response.json()\<close> returns (\<open>None\<close> when the body does not decode) and
  the time it took in microseconds (\<open>response.elapsed\<close>). The service always answers:
  connection errors are outside the model.
\<close>

datatype request =
    Get string "(string \<times> string) list"
  | Post string "(string \<times> string) list" "(string \<times> string) list" "(string \<times> json) list"

record response =
  status_code :: int
  content :: string
  json_of :: "json_obj option"
  elapsed :: nat

type_synonym http = "request \<Rightarrow> response"

subsection \<open>The processor object\<close>

record processor =
  app_id :: string
  app_key :: string
  headers :: "(string \<times> string) list"

subsection \<open>The clock and the progress bar\<close>

text \<open>
  While polling, the state is the wall clock in microseconds, the number of status
  requests issued so far, the progress bar (\<open>None\<close> until it is created, then its
  position \<open>pbar.n\<close>) and the trace of what the caller could observe: requests sent,
  progress shown, sleeps and the closing of the bar. \<open>datetime.now()\<close> reads the clock;
  a request advances it by the response's \<open>elapsed\<close>, and \<open>sleep(n)\<close> by \<open>n\<close> seconds.
\<close>

datatype event = Requested request | Progress json | Slept int | Closed

record poll_state =
  clock :: int
  polls :: nat
  pbar :: "json option"
  trace :: "event list"

definition dict_get :: "json_obj \<Rightarrow> string \<Rightarrow> json \<Rightarrow> json" where
  "dict_get d k dflt = (case map_of d k of None \<Rightarrow> dflt | Some v \<Rightarrow> v)"

text \<open>
  \<open>pbar.n = progress; pbar.refresh()\<close> draws the bar, which compares and divides
  \<open>pbar.n\<close>: that is a TypeError unless the value is a number (a JSON number, or a
  JSON boolean, which Python reads as an int).
\<close>

definition is_number :: "json \<Rightarrow> bool" where
  "is_number v = (case v of JNum x \<Rightarrow> True | JBool b \<Rightarrow> True | _ \<Rightarrow> False)"

definition close_pbar :: "poll_state \<Rightarrow> poll_state" where
  "close_pbar w = (case pbar w of None \<Rightarrow> w | Some n \<Rightarrow> w\<lparr>trace := trace w @ [Closed]\<rparr>)"

subsection \<open>Timestamps\<close>

text \<open>
  The value of \<open>datetime.now()\<close> as download_results reads it, with
  \<open>strftime('%Y%m%d_%H%M%S')\<close>: zero-padded decimal fields, the microsecond left out.
  (For a year below 1000, which the clock of a running system does not give, the
  padding of \<open>%Y\<close> depends on the platform; the model pads.)
\<close>

record datetime =
  year :: nat
  month :: nat
  day :: nat
  hour :: nat
  minute :: nat
  second :: nat
  microsecond :: nat

definition digit :: "nat \<Rightarrow> char" where
  "digit n = ''0123456789'' ! (n mod 10)"

definition pad2 :: "nat \<Rightarrow> string" where
  "pad2 n = [digit (n div 10), digit n]"

definition pad4 :: "nat \<Rightarrow> string" where
  "pad4 n = [digit (n div 1000), digit (n div 100), digit (n div 10), digit n]"

definition strftime :: "datetime \<Rightarrow> string" where
  "strftime t = pad4 (year t) @ pad2 (month t) @ pad2 (day t) @ ''_''
     @ pad2 (hour t) @ pad2 (minute t) @ pad2 (second t)"

text \<open>The ranges of the fields of a Python datetime.\<close>

definition valid_datetime :: "datetime \<Rightarrow> bool" where
  "valid_datetime t \<longleftrightarrow> 1 \<le> year t \<and> year t \<le> 9999 \<and> 1 \<le> month t \<and> month t \<le> 12
     \<and> 1 \<le> day t \<and> day t \<le> 31 \<and> hour t < 24 \<and> minute t < 60 \<and> second t < 60
     \<and> microsecond t < 1000000"

subsection \<open>The file system\<close>

text \<open>
  A \<open>Path\<close> is the list of its components, \<open>p / name\<close> appends one, and \<open>str(p)\<close>
  joins them with slashes. The file system is a tree: a map from paths to nodes, a node
  being a directory or a regular file with its contents; the empty path is the current
  directory.
\<close>

type_synonym path = "string list"

fun path_str :: "path \<Rightarrow> string" where
  "path_str [] = ''.''"
| "path_str [c] = c"
| "path_str (c # cs) = c @ ''/'' @ path_str cs"

datatype node = Directory | File string

type_synonym filesystem = "path \<rightharpoonup> node"

definition is_file :: "node option \<Rightarrow> bool" where
  "is_file n = (case n of Some (File bytes) \<Rightarrow> True | _ \<Rightarrow> False)"

text \<open>
  \<open>p.mkdir(parents=True, exist_ok=True)\<close> goes down the path from the current
  directory: a missing component is created as a directory, an existing directory is
  kept, and a regular file in the way is an error, FileExistsError when it is the path
  itself and NotADirectoryError when it is above it.
\<close>

fun mkdir_walk :: "filesystem \<Rightarrow> path \<Rightarrow> path \<Rightarrow> string list \<Rightarrow> py_error + filesystem" where
  "mkdir_walk fs target cur [] = Inr fs"
| "mkdir_walk fs target cur (c # cs) =
     (case fs (cur @ [c]) of
        None \<Rightarrow> mkdir_walk (fs(cur @ [c] \<mapsto> Directory)) target (cur @ [c]) cs
      | Some Directory \<Rightarrow> mkdir_walk fs target (cur @ [c]) cs
      | Some (File bytes) \<Rightarrow>
          Inl (if cs = [] then FileExistsError (path_str target)
               else NotADirectoryError (path_str target)))"

definition mkdir_parents_exist_ok :: "filesystem \<Rightarrow> path \<Rightarrow> py_error + filesystem" where
  "mkdir_parents_exist_ok fs p = mkdir_walk fs p [] p"

text \<open>
  \<open>open(p, 'wb')\<close> followed by \<open>write(bytes)\<close>: the directory of \<open>p\<close> has to exist
  (FileNotFoundError when a component is missing, NotADirectoryError when one is a
  regular file), \<open>p\<close> itself must not be a directory (IsADirectoryError), and then the
  file is created or replaced.
\<close>

fun parent_error :: "filesystem \<Rightarrow> path \<Rightarrow> path \<Rightarrow> string list \<Rightarrow> py_error option" where
  "parent_error fs target cur [] = None"
| "parent_error fs target cur (c # cs) =
     (case fs (cur @ [c]) of
        None \<Rightarrow> Some (FileNotFoundError (path_str target))
      | Some Directory \<Rightarrow> parent_error fs target (cur @ [c]) cs
      | Some (File bytes) \<Rightarrow> Some (NotADirectoryError (path_str target)))"

definition write_bytes :: "filesystem \<Rightarrow> path \<Rightarrow> string \<Rightarrow> py_error + filesystem" where
  "write_bytes fs p bytes =
     (case parent_error fs p [] (butlast p) of
        Some e \<Rightarrow> Inl e
      | None \<Rightarrow>
          if p = [] \<or> fs p = Some Directory then Inl (IsADirectoryError (path_str p))
          else Inr (fs(p \<mapsto> File bytes)))"

section \<open>\<open>MathpixProcessor\<close>\<close>

subsection \<open>\<open>__init__\<close>\<close>

text \<open>
  \<open>getenv\<close> is the process environment after \<open>load_dotenv()\<close>. \<open>not v\<close> holds for
  \<open>None\<close> and for the empty string.
\<close>

definition falsy :: "string option \<Rightarrow> bool" where
  "falsy v = (case v of None \<Rightarrow> True | Some s \<Rightarrow> s = [])"

definition MathpixProcessor :: "(string \<rightharpoonup> string) \<Rightarrow> py_error + processor" where
  "MathpixProcessor getenv =
     (let app_id = getenv ''MATHPIX_APP_ID''; app_key = getenv ''MATHPIX_APP_KEY'' in
      if falsy app_id \<or> falsy app_key
      then Inl (EnvironmentError
        ''Missing Mathpix credentials. Please set MATHPIX_APP_ID and MATHPIX_APP_KEY in .env file'')
      else Inr \<lparr>app_id = the app_id, app_key = the app_key,
        headers = [(''app_id'', the app_id), (''app_key'', the app_key),
                   (''Content-Type'', ''application/json'')]\<rparr>)"

subsection \<open>\<open>process_pdf\<close>\<close>

text \<open>\<open>disk\<close> gives the contents of the files that \<open>open(pdf_path, 'rb')\<close> can read.\<close>

definition process_pdf ::
  "processor \<Rightarrow> http \<Rightarrow> (string \<rightharpoonup> string) \<Rightarrow> string \<Rightarrow> py_error + json" where
  "process_pdf self http disk pdf_path =
     (case disk pdf_path of
        None \<Rightarrow> Inl (FileNotFoundError pdf_path)
      | Some file \<Rightarrow>
          let response = http (Post API_ENDPOINTS_pdf
                (filter (\<lambda>(k, v). k \<noteq> ''Content-Type'') (headers self))
                [(''file'', file)]
                [(''options_json'', PROCESSING_OPTIONS)])
          in if status_code response \<noteq> 200
             then Inl (ExceptionText ''PDF processing failed: '' (content response))
             else (case json_of response of
                     None \<Rightarrow> Inl JSONDecodeError
                   | Some body \<Rightarrow>
                       (case map_of body ''pdf_id'' of
                          None \<Rightarrow> Inl (KeyError ''pdf_id'')
                        | Some pdf_id \<Rightarrow> Inr pdf_id)))"

text \<open>
  The first two steps of \<open>process_lecture_notes\<close>: construct the processor, then
  upload.
\<close>

definition submit ::
  "(string \<rightharpoonup> string) \<Rightarrow> http \<Rightarrow> (string \<rightharpoonup> string) \<Rightarrow> string \<Rightarrow> py_error + json" where
  "submit getenv http disk pdf_path =
     (case MathpixProcessor getenv of
        Inl e \<Rightarrow> Inl e
      | Inr processor \<Rightarrow> process_pdf processor http disk pdf_path)"

subsection \<open>\<open>wait_for_processing\<close>\<close>

text \<open>
  \<open>service k t\<close> is the service as it answers the request number \<open>k\<close>, issued at
  time \<open>t\<close>. The loop is total: its termination is proved below, from the timeout test.
\<close>

function wait_loop ::
  "(nat \<Rightarrow> int \<Rightarrow> http) \<Rightarrow> processor \<Rightarrow> string \<Rightarrow> int \<Rightarrow> poll_state
    \<Rightarrow> (py_error + unit) \<times> poll_state" where
  "wait_loop service self pdf_id start_time w =
     (if of_int TIMEOUT < total_seconds (clock w - start_time)
      then (Inl (TimeoutError ''PDF processing took too long''), w)
      else
        let req = Get (API_ENDPOINTS_status pdf_id) (headers self);
            response = service (polls w) (clock w) req;
            w1 = w\<lparr>clock := clock w + int (elapsed response), polls := Suc (polls w),
                   trace := trace w @ [Requested req]\<rparr>
        in case json_of response of
             None \<Rightarrow> (Inl JSONDecodeError, w1)
           | Some status \<Rightarrow>
               (case map_of status ''status'' of
                  None \<Rightarrow> (Inl (KeyError ''status''), w1)
                | Some st \<Rightarrow>
                    if st = JStr ''completed'' then (Inr (), close_pbar w1)
                    else if st = JStr ''error''
                    then (Inl (ExceptionJson ''Processing error: '' status), close_pbar w1)
                    else
                      let progress = dict_get status ''percent_done'' (JNum 0) in
                      if \<not> is_number progress
                      then (Inl TypeError, w1\<lparr>pbar := Some progress\<rparr>)
                      else
                        wait_loop service self pdf_id start_time
                          (w1\<lparr>clock := clock w1 + POLLING_INTERVAL * 1000000,
                              pbar := Some progress,
                              trace := trace w1 @ [Progress progress, Slept POLLING_INTERVAL]\<rparr>)))"
  by pat_completeness auto

definition wait_for_processing ::
  "(nat \<Rightarrow> int \<Rightarrow> http) \<Rightarrow> processor \<Rightarrow> string \<Rightarrow> poll_state
    \<Rightarrow> (py_error + unit) \<times> poll_state" where
  "wait_for_processing service self pdf_id w =
     wait_loop service self pdf_id (clock w) (w\<lparr>pbar := None\<rparr>)"

subsection \<open>\<open>download_results\<close>\<close>

text \<open>
  The loop over the formats, and the whole method for a given table of formats;
  \<open>download_results\<close> is the method with the module's \<open>OUTPUT_FORMATS\<close>. \<open>now\<close> is the
  value of \<open>datetime.now()\<close> at the start of the call. The outcome is the returned dict
  or the exception raised, together with the file system and the requests sent; an
  exception ends the loop.
\<close>

record download_env =
  disk_of :: filesystem
  sent :: "request list"

fun download_loop ::
  "processor \<Rightarrow> http \<Rightarrow> string \<Rightarrow> path \<Rightarrow> string \<Rightarrow> string list \<Rightarrow> (string \<rightharpoonup> path)
    \<Rightarrow> download_env \<Rightarrow> (py_error + (string \<rightharpoonup> path)) \<times> download_env" where
  "download_loop self http pdf_id output_dir timestamp [] outputs env = (Inr outputs, env)"
| "download_loop self http pdf_id output_dir timestamp (fmt # fmts) outputs env =
     (let req = Get (API_ENDPOINTS_download pdf_id fmt) (headers self);
          response = http req;
          env1 = env\<lparr>sent := sent env @ [req]\<rparr>
      in if status_code response = 200
         then let output_path = output_dir @ [''notes_'' @ timestamp @ ''.'' @ fmt]
              in case write_bytes (disk_of env1) output_path (content response) of
                   Inl e \<Rightarrow> (Inl e, env1)
                 | Inr fs' \<Rightarrow>
                     download_loop self http pdf_id output_dir timestamp fmts
                       (outputs(fmt \<mapsto> output_path)) (env1\<lparr>disk_of := fs'\<rparr>)
         else download_loop self http pdf_id output_dir timestamp fmts outputs env1)"

definition download_results_for ::
  "(string \<times> string) list \<Rightarrow> processor \<Rightarrow> http \<Rightarrow> datetime \<Rightarrow> filesystem \<Rightarrow> string \<Rightarrow> path
    \<Rightarrow> (py_error + (string \<rightharpoonup> path)) \<times> download_env" where
  "download_results_for formats self http now fs pdf_id output_dir =
     (let timestamp = strftime now;
          output_dir = output_dir @ [timestamp]
      in case mkdir_parents_exist_ok fs output_dir of
           Inl e \<Rightarrow> (Inl e, \<lparr>disk_of = fs, sent = []\<rparr>)
         | Inr fs1 \<Rightarrow>
             download_loop self http pdf_id output_dir timestamp (map fst formats)
               Map.empty \<lparr>disk_of = fs1, sent = []\<rparr>)"

definition download_results ::
  "processor \<Rightarrow> http \<Rightarrow> datetime \<Rightarrow> filesystem \<Rightarrow> string \<Rightarrow> path
    \<Rightarrow> (py_error + (string \<rightharpoonup> path)) \<times> download_env" where
  "download_results = download_results_for OUTPUT_FORMATS"

subsection \<open>\<open>calculate_cost\<close>\<close>

definition calculate_cost :: "int \<Rightarrow> py_error + pyfloat" where
  "calculate_cost num_pages =
     (if num_pages \<le> 40000 then int_mul_float num_pages (float_literal (25 / 1000))
      else int_mul_float num_pages (float_literal (1 / 100)))"

section \<open>Vocabulary of the properties\<close>

definition in_progress :: "response \<Rightarrow> bool" where
  "in_progress r = (case json_of r of
     None \<Rightarrow> False
   | Some status \<Rightarrow> (case map_of status ''status'' of
       None \<Rightarrow> False
     | Some st \<Rightarrow> st \<noteq> JStr ''completed'' \<and> st \<noteq> JStr ''error''))"

text \<open>
  What the progress bar is set to after a response, and the responses on which the
  loop goes on polling: in progress, with a progress that the bar can draw.
\<close>

definition progress_of :: "response \<Rightarrow> json" where
  "progress_of r = (case json_of r of
     None \<Rightarrow> JNum 0
   | Some status \<Rightarrow> dict_get status ''percent_done'' (JNum 0))"

definition keeps_polling :: "response \<Rightarrow> bool" where
  "keeps_polling r \<longleftrightarrow> in_progress r \<and> is_number (progress_of r)"

text \<open>
  The schedule that the specification gives to the polling: starting with request
  number \<open>i\<close> at time \<open>t\<close>, each round sends one status request, shows the progress
  and sleeps for POLLING_INTERVAL seconds. \<open>poll_clock\<close> is the time at which round
  \<open>n\<close> starts and \<open>poll_trace\<close> is what the first \<open>n\<close> rounds show.
\<close>

fun poll_clock :: "(nat \<Rightarrow> int \<Rightarrow> http) \<Rightarrow> request \<Rightarrow> nat \<Rightarrow> int \<Rightarrow> nat \<Rightarrow> int" where
  "poll_clock service req i t 0 = t"
| "poll_clock service req i t (Suc n) =
     poll_clock service req (Suc i)
       (t + int (elapsed (service i t req)) + POLLING_INTERVAL * 1000000) n"

fun poll_trace :: "(nat \<Rightarrow> int \<Rightarrow> http) \<Rightarrow> request \<Rightarrow> nat \<Rightarrow> int \<Rightarrow> nat \<Rightarrow> event list" where
  "poll_trace service req i t 0 = []"
| "poll_trace service req i t (Suc n) =
     [Requested req, Progress (progress_of (service i t req)), Slept POLLING_INTERVAL]
     @ poll_trace service req (Suc i)
         (t + int (elapsed (service i t req)) + POLLING_INTERVAL * 1000000) n"

definition status_request :: "processor \<Rightarrow> string \<Rightarrow> request" where
  "status_request self pdf_id = Get (API_ENDPOINTS_status pdf_id) (headers self)"

definition download_request :: "processor \<Rightarrow> string \<Rightarrow> string \<Rightarrow> request" where
  "download_request self pdf_id fmt = Get (API_ENDPOINTS_download pdf_id fmt) (headers self)"

definition output_path :: "path \<Rightarrow> string \<Rightarrow> string \<Rightarrow> path" where
  "output_path output_dir timestamp fmt =
     output_dir @ [timestamp, ''notes_'' @ timestamp @ ''.'' @ fmt]"

text \<open>
  The name of the file of a format, and the path that a returned dict gives to a format
  (\<open>None\<close> when the call raised or the format is not among its keys).
\<close>

definition notes_name :: "string \<Rightarrow> string \<Rightarrow> string" where
  "notes_name timestamp fmt = ''notes_'' @ timestamp @ ''.'' @ fmt"

definition returned_path ::
  "(py_error + (string \<rightharpoonup> path)) \<times> download_env \<Rightarrow> string \<Rightarrow> path option" where
  "returned_path r fmt = (case fst r of Inl e \<Rightarrow> None | Inr outputs \<Rightarrow> outputs fmt)"

text \<open>
  What stands in the way of \<open>mkdir\<close>: a regular file at the path or at one of its
  ancestors. \<open>all_dirs\<close> says that the path and its ancestors are directories, and
  \<open>made_dirs\<close> is the file system after the missing ones have been created.
\<close>

definition blocked_by_file :: "filesystem \<Rightarrow> path \<Rightarrow> bool" where
  "blocked_by_file fs p = list_ex (\<lambda>q. q \<noteq> [] \<and> is_file (fs q)) (prefixes p)"

definition all_dirs :: "filesystem \<Rightarrow> path \<Rightarrow> bool" where
  "all_dirs fs p = list_all (\<lambda>q. q = [] \<or> fs q = Some Directory) (prefixes p)"

definition made_dirs :: "filesystem \<Rightarrow> path \<Rightarrow> filesystem" where
  "made_dirs fs p = (\<lambda>q. if q \<noteq> [] \<and> prefix q p \<and> fs q = None then Some Directory else fs q)"

definition upload_request :: "processor \<Rightarrow> string \<Rightarrow> request" where
  "upload_request self file_bytes = Post API_ENDPOINTS_pdf
     (filter (\<lambda>(k, v). k \<noteq> ''Content-Type'') (headers self))
     [(''file'', file_bytes)] [(''options_json'', PROCESSING_OPTIONS)]"

section \<open>Example environments\<close>

definition stuck_service :: "nat \<Rightarrow> int \<Rightarrow> http" where
  "stuck_service k t req = \<lparr>status_code = 200, content = [],
     json_of = Some [(''status'', JStr ''processing''), (''percent_done'', JNum 0)],
     elapsed = 0\<rparr>"

definition demo_processor :: processor where
  "demo_processor = \<lparr>app_id = ''id'', app_key = ''key'',
     headers = [(''app_id'', ''id''), (''app_key'', ''key''), (''Content-Type'', ''application/json'')]\<rparr>"

definition initial_state :: poll_state where
  "initial_state = \<lparr>clock = 0, polls = 0, pbar = None, trace = []\<rparr>"

definition done_service :: "nat \<Rightarrow> int \<Rightarrow> http" where
  "done_service k t req = \<lparr>status_code = 200, content = [],
     json_of = Some [(''status'', JStr ''completed''), (''percent_done'', JNum 100)],
     elapsed = 350000\<rparr>"

definition error_service :: "nat \<Rightarrow> int \<Rightarrow> http" where
  "error_service k t req = \<lparr>status_code = 200, content = [],
     json_of = Some [(''status'', JStr ''error''), (''error'', JStr ''unreadable pdf'')],
     elapsed = 350000\<rparr>"

definition demo_env :: "string \<rightharpoonup> string" where
  "demo_env = [''MATHPIX_APP_ID'' \<mapsto> ''id'', ''MATHPIX_APP_KEY'' \<mapsto> ''key'']"

definition demo_disk :: "string \<rightharpoonup> string" where
  "demo_disk = [''notes.pdf'' \<mapsto> ''%PDF-1.7'']"

definition rejecting_service :: http where
  "rejecting_service req = \<lparr>status_code = 401, content = ''Invalid credentials'',
     json_of = None, elapsed = 0\<rparr>"

definition accepting_service :: http where
  "accepting_service req = \<lparr>status_code = 200, content = [],
     json_of = Some [(''pdf_id'', JStr ''job'')], elapsed = 0\<rparr>"

definition partial_service :: http where
  "partial_service req =
     (if req = Get (API_ENDPOINTS_download ''job'' ''tex.zip'') (headers demo_processor)
      then \<lparr>status_code = 404, content = ''not found'', json_of = None, elapsed = 0\<rparr>
      else \<lparr>status_code = 200, content = ''data'', json_of = None, elapsed = 0\<rparr>)"


definition first_service :: http where
  "first_service req = \<lparr>status_code = 200, content = ''first'', json_of = None, elapsed = 0\<rparr>"

definition second_service :: http where
  "second_service req = \<lparr>status_code = 200, content = ''second'', json_of = None, elapsed = 0\<rparr>"

definition empty_fs :: filesystem where
  "empty_fs = Map.empty"


definition first_time :: datetime where
  "first_time = \<lparr>year = 2024, month = 5, day = 17, hour = 10, minute = 30,
     second = 0, microsecond = 100000\<rparr>"

definition second_time :: datetime where
  "second_time = \<lparr>year = 2024, month = 5, day = 17, hour = 10, minute = 30,
     second = 0, microsecond = 900000\<rparr>"

definition later_time :: datetime where
  "later_time = \<lparr>year = 2024, month = 5, day = 17, hour = 10, minute = 30,
     second = 1, microsecond = 0\<rparr>"

definition first_run :: "(py_error + (string \<rightharpoonup> path)) \<times> download_env" where
  "first_run = download_results demo_processor first_service first_time
     empty_fs ''job'' [''processed_notes'']"

definition second_run :: "(py_error + (string \<rightharpoonup> path)) \<times> download_env" where
  "second_run = download_results demo_processor second_service second_time
     (disk_of (snd first_run)) ''job'' [''processed_notes'']"

definition later_run :: "(py_error + (string \<rightharpoonup> path)) \<times> download_env" where
  "later_run = download_results demo_processor second_service later_time
     (disk_of (snd first_run)) ''job'' [''processed_notes'']"

definition null_progress_service :: "nat \<Rightarrow> int \<Rightarrow> http" where
  "null_progress_service k t req = \<lparr>status_code = 200, content = [],
     json_of = Some [(''status'', JStr ''processing''), (''percent_done'', JNull)],
     elapsed = 0\<rparr>"

section \<open>Facts about the float model\<close>

declare bit_length.simps [simp del]


lemma pow2_powi: "pow2 e = 2 powi e"
  by (simp add: pow2_def power_int_def inverse_eq_divide power_one_over)

lemma pow2_pos: "0 < pow2 e"
  by (simp add: pow2_powi)

lemma pow2_add: "pow2 (a + b) = pow2 a * pow2 b"
  by (simp add: pow2_powi power_int_add)

lemma pow2_mono: "a \<le> b \<Longrightarrow> pow2 a \<le> pow2 b"
  by (simp add: pow2_powi power_int_increasing)

lemma pow2_strict_mono: "a < b \<Longrightarrow> pow2 a < pow2 b"
  by (simp add: pow2_powi power_int_strict_increasing)

lemma pow2_less_iff: "pow2 a < pow2 b \<longleftrightarrow> a < b"
  using pow2_mono [of b a] pow2_strict_mono [of a b] by (cases "a < b") auto

lemma pow2_nat: "pow2 (int k) = 2 ^ k"
  by (simp add: pow2_def)

lemma pow2_Suc: "pow2 (1 + e) = 2 * pow2 e"
  using pow2_add [of 1 e] by (simp add: pow2_def)

lemma bit_length_nonneg: "0 \<le> bit_length n"
proof (induction n rule: bit_length.induct)
  case (1 n)
  then show ?case by (subst bit_length.simps) auto
qed

lemma bit_length_step: "0 < n \<Longrightarrow> bit_length n = 1 + bit_length (n div 2)"
  by (subst bit_length.simps) simp

lemma bit_length_bounds:
  "0 < n \<Longrightarrow> pow2 (bit_length n - 1) \<le> of_int n \<and> of_int n < pow2 (bit_length n)"
proof (induction n rule: bit_length.induct)
  case (1 n)
  have bl: "bit_length n = 1 + bit_length (n div 2)" using 1(2) by (rule bit_length_step)
  show ?case
  proof (cases "n = 1")
    case True
    have "bit_length (1 div 2) = 0" by (subst bit_length.simps) simp
    then show ?thesis using bl True by (simp add: pow2_def)
  next
    case False
    with 1 have h: "0 < n div 2" "\<not> n \<le> 0" by auto
    from 1(1)[OF h(2) h(1)] have ih: "pow2 (bit_length (n div 2) - 1) \<le> of_int (n div 2)"
      "of_int (n div 2) < pow2 (bit_length (n div 2))" by auto
    have "pow2 (bit_length n - 1) = 2 * pow2 (bit_length (n div 2) - 1)"
      using pow2_Suc [of "bit_length (n div 2) - 1"] by (simp add: bl)
    also have "\<dots> \<le> 2 * of_int (n div 2)" using ih(1) by simp
    also have "\<dots> \<le> of_int n"
    proof -
      have "2 * (n div 2) \<le> n" by simp
      then have "rat_of_int (2 * (n div 2)) \<le> of_int n" by (rule of_int_le_iff [THEN iffD2])
      then show ?thesis by simp
    qed
    finally have lo: "pow2 (bit_length n - 1) \<le> of_int n" .
    have "n + 1 \<le> 2 * (n div 2 + 1)" by presburger
    then have "rat_of_int (n + 1) \<le> of_int (2 * (n div 2 + 1))" by (rule of_int_le_iff [THEN iffD2])
    then have a: "rat_of_int n + 1 \<le> 2 * (of_int (n div 2) + 1)" by simp
    have b: "rat_of_int (n div 2) + 1 \<le> pow2 (bit_length (n div 2))"
    proof -
      obtain k where k: "bit_length (n div 2) = int k"
        using bit_length_nonneg [of "n div 2"] nonneg_int_cases by blast
      have "rat_of_int (n div 2) < of_int (2 ^ k)" using ih(2) by (simp add: k pow2_nat)
      then have "n div 2 < 2 ^ k" by (simp only: of_int_less_iff)
      then have "n div 2 + 1 \<le> 2 ^ k" by simp
      then have "rat_of_int (n div 2 + 1) \<le> of_int (2 ^ k)" by (simp only: of_int_le_iff)
      then show ?thesis by (simp add: k pow2_nat)
    qed
    have c: "pow2 (bit_length n) = 2 * pow2 (bit_length (n div 2))"
      using pow2_Suc [of "bit_length (n div 2)"] by (simp add: bl)
    have "rat_of_int n < pow2 (bit_length n)" using a b c by linarith
    with lo show ?thesis by simp
  qed
qed


lemma pow2_diff: "pow2 (a - b) = pow2 a / pow2 b"
  by (simp add: pow2_powi power_int_diff)

lemma ilog2_bounds:
  assumes "0 < x"
  shows "pow2 (ilog2 x) \<le> x \<and> x < pow2 (ilog2 x + 1)"
proof -
  obtain p q where pq: "quotient_of x = (p, q)" by (cases "quotient_of x")
  have q: "0 < q" using pq by (rule quotient_of_denom_pos)
  have x: "x = of_int p / of_int q" using pq by (rule quotient_of_div)
  have p: "0 < p" using assms q x by (simp add: zero_less_divide_iff)
  define d where "d = bit_length p - bit_length q"
  have il: "ilog2 x = (if pow2 d \<le> x then d else d - 1)"
    by (simp add: ilog2_def pq d_def)
  note bp = bit_length_bounds [OF p] and bq = bit_length_bounds [OF q]
  have qpos: "0 < rat_of_int q" using q by simp
  have up: "x < pow2 (d + 1)"
  proof -
    have "of_int p < pow2 (bit_length p)" using bp by simp
    also have "pow2 (bit_length p) = pow2 (d + 1) * pow2 (bit_length q - 1)"
      by (simp add: d_def flip: pow2_add)
    also have "\<dots> \<le> pow2 (d + 1) * of_int q"
      using bq pow2_pos [of "d + 1"] by (simp add: mult_left_mono)
    finally show ?thesis using qpos by (simp add: x pos_divide_less_eq)
  qed
  have lo: "pow2 (d - 1) \<le> x"
  proof -
    have "pow2 (d - 1) * of_int q \<le> pow2 (d - 1) * pow2 (bit_length q)"
      using bq pow2_pos [of "d - 1"] by (simp add: mult_left_mono)
    also have "\<dots> = pow2 (bit_length p - 1)"
      by (simp add: d_def flip: pow2_add)
    also have "\<dots> \<le> of_int p" using bp by simp
    finally show ?thesis using qpos by (simp add: x pos_le_divide_eq)
  qed
  show ?thesis
  proof (cases "pow2 d \<le> x")
    case True
    then show ?thesis using up by (simp add: il)
  next
    case False
    then show ?thesis using lo by (simp add: il)
  qed
qed

lemma ilog2_unique:
  assumes "pow2 e \<le> x" "x < pow2 (e + 1)"
  shows "ilog2 x = e"
proof -
  have x: "0 < x" using assms(1) pow2_pos [of e] by linarith
  note b = ilog2_bounds [OF x]
  have "pow2 e < pow2 (ilog2 x + 1)" using assms(1) b by linarith
  then have 1: "e < ilog2 x + 1" by (simp only: pow2_less_iff)
  have "pow2 (ilog2 x) < pow2 (e + 1)" using assms(2) b by linarith
  then have 2: "ilog2 x < e + 1" by (simp only: pow2_less_iff)
  from 1 2 show ?thesis by simp
qed

lemma round_half_even_error: "\<bar>of_int (round_half_even q) - q\<bar> \<le> 1 / 2"
proof -
  have "of_int \<lfloor>q\<rfloor> \<le> q" "q < of_int \<lfloor>q\<rfloor> + 1" by linarith+
  then show ?thesis
    by (auto simp add: round_half_even_def Let_def)
qed

lemma round_half_even_of_int [simp]: "round_half_even (of_int m) = m"
  by (simp add: round_half_even_def)

lemma round_half_even_mono:
  assumes "q \<le> r"
  shows "round_half_even q \<le> round_half_even r"
proof -
  have f: "\<lfloor>q\<rfloor> \<le> \<lfloor>r\<rfloor>" using assms by (rule floor_mono)
  have b: "of_int \<lfloor>q\<rfloor> \<le> q" "q < of_int \<lfloor>q\<rfloor> + 1" "of_int \<lfloor>r\<rfloor> \<le> r" "r < of_int \<lfloor>r\<rfloor> + 1"
    by linarith+
  show ?thesis
  proof (cases "\<lfloor>q\<rfloor> = \<lfloor>r\<rfloor>")
    case True
    then show ?thesis using assms by (auto simp add: round_half_even_def Let_def)
  next
    case False
    then have "\<lfloor>q\<rfloor> + 1 \<le> \<lfloor>r\<rfloor>" using f by simp
    moreover have "round_half_even q \<le> \<lfloor>q\<rfloor> + 1" by (simp add: round_half_even_def Let_def)
    moreover have "\<lfloor>r\<rfloor> \<le> round_half_even r" by (simp add: round_half_even_def Let_def)
    ultimately show ?thesis by linarith
  qed
qed

lemma round_half_even_minus: "round_half_even (- q) = - round_half_even q"
proof (cases "q \<in> \<int>")
  case True
  then obtain m where "q = of_int m" by (auto elim: Ints_cases)
  then have "- q = of_int (- m)" by simp
  then show ?thesis using \<open>q = of_int m\<close> by (simp only: round_half_even_of_int)
next
  case False
  have ne: "q \<noteq> of_int \<lfloor>q\<rfloor>"
  proof
    assume "q = of_int \<lfloor>q\<rfloor>"
    then have "q \<in> \<int>" by (metis Ints_of_int)
    with False show False by simp
  qed
  then have fl: "\<lfloor>- q\<rfloor> = - \<lfloor>q\<rfloor> - 1"
    by (simp add: floor_minus ceiling_altdef)
  have b: "of_int \<lfloor>q\<rfloor> \<le> q" "q < of_int \<lfloor>q\<rfloor> + 1" by linarith+
  show ?thesis using b ne
    by (auto simp add: round_half_even_def Let_def fl)
qed



lemma pow2_numeral: "pow2 (numeral k) = 2 ^ numeral k"
  by (simp add: pow2_def)

lemma round_double_alt:
  "x \<noteq> 0 \<Longrightarrow> round_double x = of_int (round_half_even (x / pow2 (fexp x - 52))) * pow2 (fexp x - 52)"
  by (simp add: round_double_def fexp_def Let_def)

lemma round_double_zero [simp]: "round_double 0 = 0"
  by (simp add: round_double_def)

lemma round_double_minus: "round_double (- x) = - round_double x"
proof (cases "x = 0")
  case True
  then show ?thesis by simp
next
  case False
  have "fexp (- x) = fexp x" by (simp add: fexp_def)
  then show ?thesis using False
    by (simp add: round_double_alt round_half_even_minus)
qed

lemma round_double_error:
  assumes "x \<noteq> 0"
  shows "\<bar>round_double x - x\<bar> \<le> pow2 (fexp x - 53)"
proof -
  define u where "u = pow2 (fexp x - 52)"
  have u: "0 < u" by (simp add: u_def pow2_pos)
  have "round_double x - x = (of_int (round_half_even (x / u)) - x / u) * u"
    using u assms by (simp add: round_double_alt u_def left_diff_distrib)
  then have "\<bar>round_double x - x\<bar> = \<bar>of_int (round_half_even (x / u)) - x / u\<bar> * u"
    using u by (simp add: abs_mult)
  also have "\<dots> \<le> (1 / 2) * u"
    using round_half_even_error [of "x / u"] u by (intro mult_right_mono) auto
  also have "\<dots> = pow2 (fexp x - 53)"
    using pow2_Suc [of "fexp x - 53"] by (simp add: u_def)
  finally show ?thesis .
qed

lemma ilog2_ge:
  assumes "pow2 k \<le> x"
  shows "k \<le> ilog2 x"
proof -
  have x: "0 < x" using assms pow2_pos [of k] by linarith
  have "pow2 k < pow2 (ilog2 x + 1)" using ilog2_bounds [OF x] assms by linarith
  then have "k < ilog2 x + 1" by (simp only: pow2_less_iff)
  then show ?thesis by simp
qed

lemma ilog2_less:
  assumes "0 < x" "x < pow2 k"
  shows "ilog2 x < k"
proof -
  have "pow2 (ilog2 x) < pow2 k" using ilog2_bounds [OF assms(1)] assms(2) by linarith
  then show ?thesis by (simp only: pow2_less_iff)
qed

lemma round_double_relative_error:
  assumes "pow2 (- 1022) \<le> \<bar>x\<bar>"
  shows "\<bar>round_double x - x\<bar> \<le> \<bar>x\<bar> / 2 ^ 53"
proof -
  have x: "x \<noteq> 0" "0 < \<bar>x\<bar>" using assms pow2_pos [of "- 1022"] by auto
  have "- 1022 \<le> ilog2 \<bar>x\<bar>" using assms by (rule ilog2_ge)
  then have e: "fexp x = ilog2 \<bar>x\<bar>" by (simp add: fexp_def)
  have "\<bar>round_double x - x\<bar> \<le> pow2 (ilog2 \<bar>x\<bar> - 53)"
    using round_double_error [OF x(1)] by (simp add: e)
  also have "\<dots> = pow2 (ilog2 \<bar>x\<bar>) / 2 ^ 53"
    by (simp add: pow2_diff pow2_numeral)
  also have "\<dots> \<le> \<bar>x\<bar> / 2 ^ 53"
    using ilog2_bounds [OF x(2)] by (simp add: divide_right_mono)
  finally show ?thesis .
qed

lemma round_double_bounds_pos:
  assumes "pow2 e \<le> x" "x < pow2 (e + 1)" "- 1022 \<le> e"
  shows "pow2 e \<le> round_double x \<and> round_double x \<le> pow2 (e + 1)"
proof -
  have x: "0 < x" using assms(1) pow2_pos [of e] by linarith
  have il: "ilog2 \<bar>x\<bar> = e" using assms(1,2) x by (simp add: ilog2_unique)
  have fe: "fexp x = e" using assms(3) by (simp add: fexp_def il)
  define u where "u = pow2 (e - 52)"
  have u: "0 < u" by (simp add: u_def pow2_pos)
  have rd: "round_double x = of_int (round_half_even (x / u)) * u"
    using x by (simp add: round_double_alt fe u_def)
  have eu: "pow2 e = of_int (2 ^ 52) * u"
    using pow2_add [of 52 "e - 52"] by (simp add: u_def pow2_numeral)
  have eu': "pow2 (e + 1) = of_int (2 ^ 53) * u"
    using pow2_add [of 53 "e - 52"] by (simp add: u_def pow2_numeral add.commute)
  have "of_int (2 ^ 52) \<le> x / u" using assms(1) u by (simp add: eu pos_le_divide_eq)
  then have "round_half_even (of_int (2 ^ 52)) \<le> round_half_even (x / u)"
    by (rule round_half_even_mono)
  then have "(2 ^ 52 :: int) \<le> round_half_even (x / u)"
    by (simp only: round_half_even_of_int)
  then have "rat_of_int (2 ^ 52) \<le> of_int (round_half_even (x / u))"
    by (simp only: of_int_le_iff)
  then have lo: "pow2 e \<le> round_double x"
    unfolding rd eu using u by (intro mult_right_mono) auto
  have "x / u \<le> of_int (2 ^ 53)" using assms(2) u by (simp add: eu' pos_divide_le_eq)
  then have "round_half_even (x / u) \<le> round_half_even (of_int (2 ^ 53))"
    by (rule round_half_even_mono)
  then have "round_half_even (x / u) \<le> (2 ^ 53 :: int)"
    by (simp only: round_half_even_of_int)
  then have "rat_of_int (round_half_even (x / u)) \<le> of_int (2 ^ 53)"
    by (simp only: of_int_le_iff)
  then have hi: "round_double x \<le> pow2 (e + 1)"
    unfolding rd eu' using u by (intro mult_right_mono) auto
  from lo hi show ?thesis by simp
qed

lemma round_double_nonneg: "0 \<le> x \<Longrightarrow> 0 \<le> round_double x"
proof (cases "x = 0")
  case True
  then show ?thesis by simp
next
  case False
  assume "0 \<le> x"
  define u where "u = pow2 (fexp x - 52)"
  have u: "0 < u" by (simp add: u_def pow2_pos)
  have "rat_of_int 0 \<le> x / u" using \<open>0 \<le> x\<close> u by simp
  then have "round_half_even (of_int 0) \<le> round_half_even (x / u)"
    by (rule round_half_even_mono)
  then have "0 \<le> round_half_even (x / u)" by (simp only: round_half_even_of_int)
  then show ?thesis using u False by (simp add: round_double_alt u_def)
qed

lemma round_double_of_int:
  assumes "\<bar>n\<bar> < 2 ^ 53"
  shows "round_double (of_int n) = of_int n"
proof (cases "n = 0")
  case True
  then show ?thesis by simp
next
  case False
  define x where "x = rat_of_int n"
  have x: "x \<noteq> 0" "0 < \<bar>x\<bar>" using False by (simp_all add: x_def)
  have "rat_of_int \<bar>n\<bar> < of_int (2 ^ 53)" using assms by (simp only: of_int_less_iff)
  then have "\<bar>x\<bar> < pow2 53" by (simp add: x_def pow2_numeral)
  then have "ilog2 \<bar>x\<bar> < 53" using x(2) by (intro ilog2_less)
  then have "fexp x \<le> 52" by (simp add: fexp_def)
  then obtain k where k: "fexp x - 52 = - int k"
    by (metis diff_le_0_iff_le minus_minus nonneg_int_cases neg_0_le_iff_le)
  have u: "pow2 (fexp x - 52) = 1 / 2 ^ k"
    by (cases "k = 0") (simp_all add: k pow2_def)
  have "x / pow2 (fexp x - 52) = x * 2 ^ k" by (simp add: u)
  then have "x / pow2 (fexp x - 52) = of_int (n * 2 ^ k)" by (simp add: x_def)
  then have "round_half_even (x / pow2 (fexp x - 52)) = n * 2 ^ k"
    by (simp only: round_half_even_of_int)
  then have "round_double x = of_int (n * 2 ^ k) * pow2 (fexp x - 52)"
    using round_double_alt [OF x(1)] by simp
  then have "round_double x = of_int (n * 2 ^ k) * (1 / 2 ^ k)"
    by (simp only: u)
  then show ?thesis by (simp add: x_def)
qed


lemma round_double_range:
  assumes "pow2 a \<le> x" "x < pow2 b" "- 1022 \<le> a"
  shows "pow2 a \<le> round_double x \<and> round_double x \<le> pow2 b"
proof -
  have x: "0 < x" using assms(1) pow2_pos [of a] by linarith
  have a: "a \<le> ilog2 x" using assms(1) by (rule ilog2_ge)
  have b: "ilog2 x + 1 \<le> b" using ilog2_less [OF x assms(2)] by simp
  have "pow2 (ilog2 x) \<le> round_double x \<and> round_double x \<le> pow2 (ilog2 x + 1)"
    using ilog2_bounds [OF x] a assms(3) by (intro round_double_bounds_pos) auto
  then show ?thesis using pow2_mono [OF a] pow2_mono [OF b] by linarith
qed

lemma float_of_int_exact:
  assumes "\<bar>n\<bar> < 2 ^ 53"
  shows "float_of_int n = Inr (of_int n)"
proof -
  have "rat_of_int \<bar>n\<bar> < of_int (2 ^ 53)" using assms by (simp only: of_int_less_iff)
  then have "\<bar>rat_of_int n\<bar> < 2 ^ 53" by simp
  moreover have "(2::rat) ^ 53 \<le> 2 ^ 1024" by (rule power_increasing) simp_all
  ultimately have "\<not> 2 ^ 1024 \<le> \<bar>rat_of_int n\<bar>" by linarith
  then show ?thesis
    by (simp add: float_of_int_def round_double_of_int [OF assms])
qed

lemma float_of_int_overflow:
  assumes "2 ^ 1024 \<le> \<bar>n\<bar>"
  shows "float_of_int n = Inl (OverflowError ''int too large to convert to float'')"
proof -
  define x where "x = \<bar>rat_of_int n\<bar>"
  have "rat_of_int (2 ^ 1024) \<le> of_int \<bar>n\<bar>" using assms by (simp only: of_int_le_iff)
  then have big: "pow2 1024 \<le> x" by (simp add: x_def pow2_numeral)
  then have x: "0 < x" using pow2_pos [of 1024] by linarith
  have e: "1024 \<le> ilog2 x" using big by (rule ilog2_ge)
  have "pow2 (ilog2 x) \<le> round_double x"
    using round_double_bounds_pos [of "ilog2 x" x] ilog2_bounds [OF x] e by simp
  then have "pow2 1024 \<le> round_double x" using pow2_mono [OF e] by linarith
  moreover have "\<bar>round_double (of_int n)\<bar> = round_double x"
  proof (cases "0 \<le> n")
    case True
    then show ?thesis using round_double_nonneg [of "rat_of_int n"] by (simp add: x_def)
  next
    case False
    then have "x = - rat_of_int n" by (simp add: x_def)
    then have "round_double x = - round_double (of_int n)" by (simp only: round_double_minus)
    moreover have "0 \<le> round_double x" using x by (intro round_double_nonneg) simp
    ultimately show ?thesis by simp
  qed
  ultimately have "2 ^ 1024 \<le> \<bar>round_double (of_int n)\<bar>" by (simp add: pow2_numeral)
  then show ?thesis by (simp add: float_of_int_def)
qed

lemma float_of_int_negative:
  assumes "n < 0" "- (2 ^ 1024 - 2 ^ 970) < n"
  shows "\<exists>f. float_of_int n = Inr f \<and> f \<le> - 1 \<and> - (2 ^ 1024) < f"
proof -
  define x where "x = - rat_of_int n"
  have "1 \<le> - n" using assms(1) by simp
  then have "rat_of_int 1 \<le> of_int (- n)" by (simp only: of_int_le_iff)
  then have x1: "pow2 0 \<le> x" by (simp add: x_def pow2_def)
  have "- n < 2 ^ 1024 - 2 ^ 970" using assms(2) by simp
  then have "rat_of_int (- n) < of_int (2 ^ 1024 - 2 ^ 970)" by (simp only: of_int_less_iff)
  then have x2: "x < 2 ^ 1024 - 2 ^ 970" by (simp add: x_def)
  have x0: "0 < x" "x \<noteq> 0" using x1 by (simp_all add: pow2_def)
  have "x < pow2 1024" using x2 by (simp add: pow2_numeral)
  then have "ilog2 x < 1024" using x0(1) by (intro ilog2_less)
  then have "fexp x - 53 \<le> 970" using x0(1) by (simp add: fexp_def)
  then have "pow2 (fexp x - 53) \<le> pow2 970" by (rule pow2_mono)
  then have "\<bar>round_double x - x\<bar> \<le> 2 ^ 970"
    using round_double_error [OF x0(2)] by (simp add: pow2_numeral)
  then have hi: "round_double x < 2 ^ 1024" using x2 by linarith
  have "pow2 0 \<le> round_double x"
    using round_double_range [of 0 x 1024] x1 \<open>x < pow2 1024\<close> by simp
  then have lo: "1 \<le> round_double x" by (simp add: pow2_def)
  have rd: "round_double (of_int n) = - round_double x"
    using round_double_minus [of x] by (simp add: x_def)
  have "\<not> 2 ^ 1024 \<le> \<bar>round_double (of_int n)\<bar>" using hi lo by (simp add: rd)
  then have "float_of_int n = Inr (- round_double x)" by (simp add: float_of_int_def rd)
  then show ?thesis using hi lo by simp
qed

lemma float_mul_finite_pos:
  assumes "pow2 a \<le> x * y" "x * y < pow2 b" "- 1022 \<le> a" "b \<le> 1023"
  shows "float_mul x y = Fin (round_double (x * y)) \<and> 0 < round_double (x * y)"
proof -
  note r = round_double_range [OF assms(1,2,3)]
  have "pow2 b < pow2 1024" using assms(4) by (intro pow2_strict_mono) simp
  then have "round_double (x * y) < 2 ^ 1024" using r by (simp add: pow2_numeral)
  moreover have "0 < round_double (x * y)" using r pow2_pos [of a] by linarith
  ultimately show ?thesis by (simp add: float_mul_def Let_def)
qed

lemma float_mul_finite_neg:
  assumes "pow2 a \<le> - (x * y)" "- (x * y) < pow2 b" "- 1022 \<le> a" "b \<le> 1023"
  shows "float_mul x y = Fin (round_double (x * y)) \<and> round_double (x * y) < 0"
proof -
  note r = round_double_range [OF assms(1,2,3)]
  have m: "round_double (- (x * y)) = - round_double (x * y)" by (rule round_double_minus)
  have "pow2 b < pow2 1024" using assms(4) by (intro pow2_strict_mono) simp
  then have "- (2 ^ 1024) < round_double (x * y)" using r by (simp add: pow2_numeral m)
  moreover have "round_double (x * y) < 0" using r pow2_pos [of a] by (simp add: m)
  ultimately show ?thesis by (simp add: float_mul_def Let_def)
qed


lemma round_half_even_tie: "round_half_even (of_int (2 ^ 53) - 1 / 2) = 2 ^ 53"
proof -
  have "\<lfloor>rat_of_int (2 ^ 53) - 1 / 2\<rfloor> = 2 ^ 53 - 1" by (simp add: floor_unique)
  then show ?thesis by (simp add: round_half_even_def Let_def)
qed

lemma float_of_int_overflow_band:
  assumes "2 ^ 1024 - 2 ^ 970 \<le> \<bar>n\<bar>"
  shows "float_of_int n = Inl (OverflowError ''int too large to convert to float'')"
proof (cases "2 ^ 1024 \<le> \<bar>n\<bar>")
  case True
  then show ?thesis by (rule float_of_int_overflow)
next
  case False
  define x where "x = \<bar>rat_of_int n\<bar>"
  have "rat_of_int (2 ^ 1024 - 2 ^ 970) \<le> of_int \<bar>n\<bar>" using assms by (simp only: of_int_le_iff)
  then have lo: "2 ^ 1024 - 2 ^ 970 \<le> x" by (simp add: x_def)
  have "\<bar>n\<bar> < 2 ^ 1024" using False by simp
  then have "rat_of_int \<bar>n\<bar> < of_int (2 ^ 1024)" by (simp only: of_int_less_iff)
  then have hi: "x < pow2 (1023 + 1)" by (simp add: x_def pow2_numeral)
  have lo': "pow2 1023 \<le> x" using lo by (simp add: pow2_numeral)
  have x0: "0 < x" "x \<noteq> 0" using lo' pow2_pos [of 1023] by auto
  have il: "ilog2 \<bar>x\<bar> = 1023" using lo' hi x0 by (simp add: ilog2_unique)
  have fe: "fexp x - 52 = 971" by (simp add: fexp_def il)
  have "of_int (2 ^ 53) - 1 / 2 \<le> x / pow2 971"
    using lo by (simp add: pow2_numeral pos_le_divide_eq)
  then have "round_half_even (of_int (2 ^ 53) - 1 / 2) \<le> round_half_even (x / pow2 971)"
    by (rule round_half_even_mono)
  then have "2 ^ 53 \<le> round_half_even (x / pow2 971)" by (simp only: round_half_even_tie)
  then have "rat_of_int (2 ^ 53) \<le> of_int (round_half_even (x / pow2 971))"
    by (simp only: of_int_le_iff)
  then have "rat_of_int (2 ^ 53) * pow2 971 \<le> round_double x"
    using pow2_pos [of 971] by (simp add: round_double_alt [OF x0(2)] fe)
  then have big: "2 ^ 1024 \<le> round_double x" by (simp add: pow2_numeral)
  have "\<bar>round_double (of_int n)\<bar> = round_double x"
  proof (cases "0 \<le> n")
    case True
    then show ?thesis using round_double_nonneg [of "rat_of_int n"] by (simp add: x_def)
  next
    case False
    then have "x = - rat_of_int n" by (simp add: x_def)
    then have "round_double x = - round_double (of_int n)" by (simp only: round_double_minus)
    moreover have "0 \<le> round_double x" using x0 by (intro round_double_nonneg) simp
    ultimately show ?thesis by simp
  qed
  then have "2 ^ 1024 \<le> \<bar>round_double (of_int n)\<bar>" using big by simp
  then show ?thesis by (simp add: float_of_int_def)
qed

lemma lit_025: "float_literal (25 / 1000) = 3602879701896397 / 144115188075855872"
  unfolding float_literal_def by code_simp

lemma lit_001: "float_literal (1 / 100) = 5764607523034235 / 576460752303423488"
  unfolding float_literal_def by code_simp

lemma calculate_cost_nonneg_low:
  assumes "0 \<le> n" "n \<le> 40000"
  shows "calculate_cost n = Inr (Fin (round_double (of_int n * float_literal (25 / 1000))))"
proof -
  have "\<bar>n\<bar> < 2 ^ 53" using assms by simp
  then have fi: "float_of_int n = Inr (of_int n)" by (rule float_of_int_exact)
  have "float_mul (of_int n) (float_literal (25 / 1000))
      = Fin (round_double (of_int n * float_literal (25 / 1000)))"
  proof (cases "n = 0")
    case True
    then show ?thesis by (simp add: float_mul_def)
  next
    case False
    then have "1 \<le> n" using assms(1) by simp
    then have "rat_of_int 1 \<le> of_int n" by (simp only: of_int_le_iff)
    then have a: "pow2 (- 6) \<le> of_int n * float_literal (25 / 1000)"
      unfolding lit_025 by (simp add: pow2_def)
    have "rat_of_int n \<le> of_int 40000" using assms(2) by (simp only: of_int_le_iff)
    then have b: "of_int n * float_literal (25 / 1000) < pow2 11"
      unfolding lit_025 by (simp add: pow2_numeral)
    show ?thesis using float_mul_finite_pos [OF a b] by simp
  qed
  then show ?thesis using assms(2) by (simp add: calculate_cost_def int_mul_float_def fi)
qed

lemma calculate_cost_negative_finite:
  assumes "n < 0" "- (2 ^ 1024 - 2 ^ 970) < n"
  shows "\<exists>r. calculate_cost n = Inr (Fin r) \<and> r < 0"
proof -
  obtain f where f: "float_of_int n = Inr f" "f \<le> - 1" "- (2 ^ 1024) < f"
    using float_of_int_negative [OF assms] by blast
  have a: "pow2 (- 6) \<le> - (f * float_literal (25 / 1000))"
    unfolding lit_025 using f(2) by (simp add: pow2_def)
  have b: "- (f * float_literal (25 / 1000)) < pow2 1019"
    unfolding lit_025 using f(3) by (simp add: pow2_numeral)
  have "float_mul f (float_literal (25 / 1000)) = Fin (round_double (f * float_literal (25 / 1000)))
      \<and> round_double (f * float_literal (25 / 1000)) < 0"
    using float_mul_finite_neg [OF a b] by simp
  then show ?thesis using assms(1) by (simp add: calculate_cost_def int_mul_float_def f(1))
qed

lemma float_of_int_positive:
  assumes "0 < n" "n < 2 ^ 1024 - 2 ^ 970"
  shows "\<exists>f. float_of_int n = Inr f \<and> 1 \<le> f \<and> f < 2 ^ 1024"
proof -
  have "- n < 0" "- (2 ^ 1024 - 2 ^ 970) < - n" using assms by simp_all
  then obtain f where f: "float_of_int (- n) = Inr f" "f \<le> - 1" "- (2 ^ 1024) < f"
    using float_of_int_negative [of "- n"] by blast
  have "round_double (of_int (- n)) = - round_double (of_int n)"
    using round_double_minus [of "rat_of_int n"] by simp
  then have "float_of_int n = Inr (- f)"
    using f(1) by (auto simp add: float_of_int_def Let_def split: if_splits)
  then show ?thesis using f(2,3) by simp
qed

lemma calculate_cost_high_finite:
  assumes "40000 < n" "n < 2 ^ 1024 - 2 ^ 970"
  shows "\<exists>r. calculate_cost n = Inr (Fin r) \<and> 0 < r"
proof -
  have "0 < n" using assms(1) by simp
  then obtain f where f: "float_of_int n = Inr f" "1 \<le> f" "f < 2 ^ 1024"
    using float_of_int_positive [OF _ assms(2)] by blast
  have a: "pow2 (- 7) \<le> f * float_literal (1 / 100)"
    unfolding lit_001 using f(2) by (simp add: pow2_def)
  have b: "f * float_literal (1 / 100) < pow2 1018"
    unfolding lit_001 using f(3) by (simp add: pow2_numeral)
  have "float_mul f (float_literal (1 / 100)) = Fin (round_double (f * float_literal (1 / 100)))
      \<and> 0 < round_double (f * float_literal (1 / 100))"
    using float_mul_finite_pos [OF a b] by simp
  then show ?thesis using assms(1) by (simp add: calculate_cost_def int_mul_float_def f(1))
qed

lemma calculate_cost_zero: "calculate_cost 0 = Inr (Fin 0)"
  using calculate_cost_nonneg_low [of 0] by simp

lemma calculate_cost_overflow:
  assumes "n \<le> - (2 ^ 1024 - 2 ^ 970)"
  shows "calculate_cost n = Inl (OverflowError ''int too large to convert to float'')"
proof -
  have "2 ^ 1024 - 2 ^ 970 \<le> \<bar>n\<bar>" using assms by simp
  then have "float_of_int n = Inl (OverflowError ''int too large to convert to float'')"
    by (rule float_of_int_overflow_band)
  moreover have "n \<le> 40000" using assms by simp
  ultimately show ?thesis by (simp add: calculate_cost_def int_mul_float_def)
qed

lemma rd_600: "round_double 600 = 600"
  by code_simp

lemma total_seconds_gt_600: "600 < total_seconds us \<longleftrightarrow> 600000000 < us"
proof (cases "600000000 < us")
  case True
  define x where "x = rat_of_int us / 1000000"
  have "600000001 \<le> us" using True by simp
  then have "rat_of_int 600000001 \<le> of_int us" by (simp only: of_int_le_iff)
  then have x: "600000001 / 1000000 \<le> x" by (simp add: x_def)
  then have "pow2 (- 1022) \<le> \<bar>x\<bar>" by (simp add: pow2_def)
  then have "\<bar>round_double x - x\<bar> \<le> \<bar>x\<bar> / 2 ^ 53" by (rule round_double_relative_error)
  then have "\<bar>round_double x - x\<bar> \<le> \<bar>x\<bar> / 9007199254740992" by simp
  then have "600 < round_double x" using x by linarith
  then show ?thesis using True by (simp add: total_seconds_def x_def)
next
  case False
  define x where "x = rat_of_int us / 1000000"
  have "round_double x \<le> 600"
  proof (cases "us \<le> 0")
    case True
    then have "rat_of_int us \<le> of_int 0" by (simp only: of_int_le_iff)
    then have "0 \<le> - x" by (simp add: x_def)
    then have "0 \<le> round_double (- x)" by (rule round_double_nonneg)
    then show ?thesis by (simp add: round_double_minus)
  next
    case pos: False
    show ?thesis
    proof (cases "us = 600000000")
      case True
      then show ?thesis by (simp add: x_def rd_600)
    next
      case ne: False
      have "1 \<le> us" "us \<le> 599999999" using pos ne False by simp_all
      then have "rat_of_int 1 \<le> of_int us" "rat_of_int us \<le> of_int 599999999"
        by (simp_all only: of_int_le_iff)
      then have x: "1 / 1000000 \<le> x" "x \<le> 599999999 / 1000000" by (simp_all add: x_def)
      then have "pow2 (- 1022) \<le> \<bar>x\<bar>" by (simp add: pow2_def)
      then have "\<bar>round_double x - x\<bar> \<le> \<bar>x\<bar> / 2 ^ 53" by (rule round_double_relative_error)
      then have "\<bar>round_double x - x\<bar> \<le> \<bar>x\<bar> / 9007199254740992" by simp
      then show ?thesis using x by linarith
    qed
  qed
  then show ?thesis using False by (simp add: total_seconds_def x_def)
qed

section \<open>Termination of the polling loop\<close>

termination wait_loop
proof (relation "measure (\<lambda>(service, self, pdf_id, start_time, w). nat (start_time + 600000001 - clock w))")
  show "wf (measure (\<lambda>(service, self, pdf_id, start_time, w). nat (start_time + 600000001 - clock w)))"
    by simp
next
  fix service :: "nat \<Rightarrow> int \<Rightarrow> http" and self :: processor and pdf_id :: string
    and start_time :: int and w :: poll_state and req :: request and response :: response
    and w1 :: poll_state and progress :: json
  assume a: "\<not> of_int TIMEOUT < total_seconds (clock w - start_time)"
    and w1: "w1 = w\<lparr>clock := clock w + int (elapsed response), polls := Suc (polls w),
                   trace := trace w @ [Requested req]\<rparr>"
  have "\<not> 600 < total_seconds (clock w - start_time)" using a by (simp add: TIMEOUT_def)
  then have "clock w - start_time \<le> 600000000" by (simp add: total_seconds_gt_600)
  then show "((service, self, pdf_id, start_time,
          w1\<lparr>clock := clock w1 + POLLING_INTERVAL * 1000000, pbar := Some progress,
               trace := trace w1 @ [Progress progress, Slept POLLING_INTERVAL]\<rparr>),
         service, self, pdf_id, start_time, w)
        \<in> measure (\<lambda>(service, self, pdf_id, start_time, w). nat (start_time + 600000001 - clock w))"
    by (simp add: w1 POLLING_INTERVAL_def)
qed

declare wait_loop.simps [simp del]

lemma not_timed_out_at_start: "\<not> of_int TIMEOUT < total_seconds 0"
  by (simp add: TIMEOUT_def total_seconds_gt_600)

lemma timed_out_iff: "of_int TIMEOUT < total_seconds d \<longleftrightarrow> 600000000 < d"
  by (simp add: TIMEOUT_def total_seconds_gt_600)

lemma wait_loop_schedule:
  assumes "\<And>k t. keeps_polling (service k t (status_request self pdf_id))"
  shows "\<exists>n. fst (wait_loop service self pdf_id start_time w)
        = Inl (TimeoutError ''PDF processing took too long'')
    \<and> clock (snd (wait_loop service self pdf_id start_time w))
        = poll_clock service (status_request self pdf_id) (polls w) (clock w) n
    \<and> polls (snd (wait_loop service self pdf_id start_time w)) = polls w + n
    \<and> trace (snd (wait_loop service self pdf_id start_time w))
        = trace w @ poll_trace service (status_request self pdf_id) (polls w) (clock w) n
    \<and> 600000000 < poll_clock service (status_request self pdf_id) (polls w) (clock w) n - start_time
    \<and> (\<forall>k<n. poll_clock service (status_request self pdf_id) (polls w) (clock w) k - start_time
          \<le> 600000000)
    \<and> int n * 2000000 \<le> max 0 (start_time + 602000000 - clock w)"
  using assms
proof (induction service self pdf_id start_time w rule: wait_loop.induct)
  case (1 service self pdf_id start_time w)
  let ?req = "status_request self pdf_id"
  show ?case
  proof (cases "of_int TIMEOUT < total_seconds (clock w - start_time)")
    case True
    then have "wait_loop service self pdf_id start_time w
        = (Inl (TimeoutError ''PDF processing took too long''), w)"
      by (subst wait_loop.simps) simp
    then show ?thesis using True by (intro exI [of _ 0]) (simp add: timed_out_iff)
  next
    case False
    define req where "req = Get (API_ENDPOINTS_status pdf_id) (headers self)"
    define response where "response = service (polls w) (clock w) req"
    define w1 where "w1 = w\<lparr>clock := clock w + int (elapsed response), polls := Suc (polls w),
                   trace := trace w @ [Requested req]\<rparr>"
    have req: "req = ?req" by (simp add: req_def status_request_def)
    have kp: "keeps_polling response"
      using "1.prems" [of "polls w" "clock w"] by (simp add: response_def req)
    then obtain status st where st: "json_of response = Some status"
      "map_of status ''status'' = Some st" "st \<noteq> JStr ''completed''" "st \<noteq> JStr ''error''"
      by (auto simp add: keeps_polling_def in_progress_def split: option.splits)
    define progress where "progress = dict_get status ''percent_done'' (JNum 0)"
    have pr: "progress = progress_of response" by (simp add: progress_def progress_of_def st(1))
    have num: "\<not> \<not> is_number progress" using kp by (simp add: keeps_polling_def pr)
    define w2 where "w2 = w1\<lparr>clock := clock w1 + POLLING_INTERVAL * 1000000,
        pbar := Some progress,
        trace := trace w1 @ [Progress progress, Slept POLLING_INTERVAL]\<rparr>"
    have step: "wait_loop service self pdf_id start_time w = wait_loop service self pdf_id start_time w2"
      using False st num
      by (subst wait_loop.simps)
        (simp add: Let_def req_def [symmetric] response_def [symmetric] w1_def [symmetric]
          progress_def [symmetric] w2_def)
    obtain n where ih: "fst (wait_loop service self pdf_id start_time w2)
        = Inl (TimeoutError ''PDF processing took too long'')"
      "clock (snd (wait_loop service self pdf_id start_time w2))
        = poll_clock service ?req (polls w2) (clock w2) n"
      "polls (snd (wait_loop service self pdf_id start_time w2)) = polls w2 + n"
      "trace (snd (wait_loop service self pdf_id start_time w2))
        = trace w2 @ poll_trace service ?req (polls w2) (clock w2) n"
      "600000000 < poll_clock service ?req (polls w2) (clock w2) n - start_time"
      "\<forall>k<n. poll_clock service ?req (polls w2) (clock w2) k - start_time \<le> 600000000"
      "int n * 2000000 \<le> max 0 (start_time + 602000000 - clock w2)"
      using "1.IH" [OF False req_def response_def w1_def st(1,2,3,4) progress_def num,
          folded w2_def, OF "1.prems"]
      by blast
    have d: "clock w - start_time \<le> 600000000" using False by (simp add: timed_out_iff)
    have c2: "clock w2 = clock w + int (elapsed (service (polls w) (clock w) ?req))
        + POLLING_INTERVAL * 1000000" "polls w2 = Suc (polls w)"
      "trace w2 = trace w @ [Requested ?req,
          Progress (progress_of (service (polls w) (clock w) ?req)), Slept POLLING_INTERVAL]"
      by (simp_all add: w2_def w1_def pr response_def req)
    have later: "poll_clock service ?req (polls w) (clock w) (Suc k)
        = poll_clock service ?req (polls w2) (clock w2) k" for k
      by (simp add: c2)
    have bound: "\<forall>k<Suc n. poll_clock service ?req (polls w) (clock w) k - start_time \<le> 600000000"
    proof (intro allI impI)
      fix k assume "k < Suc n"
      then show "poll_clock service ?req (polls w) (clock w) k - start_time \<le> 600000000"
        using d ih(6) later by (cases k) simp_all
    qed
    have "clock w + 2000000 \<le> clock w2" by (simp add: c2 POLLING_INTERVAL_def)
    then have fuel: "int (Suc n) * 2000000 \<le> max 0 (start_time + 602000000 - clock w)"
      using ih(7) d by (auto simp add: max_def split: if_splits)
    show ?thesis
      unfolding step
      using ih(1,2,3,4,5) bound fuel
      by (intro exI [of _ "Suc n"]) (simp add: later c2)
  qed
qed

lemma wait_for_processing_first_poll:
  "wait_for_processing service self pdf_id w =
     (let req = Get (API_ENDPOINTS_status pdf_id) (headers self);
          response = service (polls w) (clock w) req;
          w1 = w\<lparr>clock := clock w + int (elapsed response), polls := Suc (polls w),
                 pbar := None, trace := trace w @ [Requested req]\<rparr>
      in case json_of response of
           None \<Rightarrow> (Inl JSONDecodeError, w1)
         | Some status \<Rightarrow>
             (case map_of status ''status'' of
                None \<Rightarrow> (Inl (KeyError ''status''), w1)
              | Some st \<Rightarrow>
                  if st = JStr ''completed'' then (Inr (), w1)
                  else if st = JStr ''error''
                  then (Inl (ExceptionJson ''Processing error: '' status), w1)
                  else if \<not> is_number (dict_get status ''percent_done'' (JNum 0))
                  then (Inl TypeError,
                    w1\<lparr>pbar := Some (dict_get status ''percent_done'' (JNum 0))\<rparr>)
                  else wait_loop service self pdf_id (clock w)
                    (w1\<lparr>clock := clock w1 + POLLING_INTERVAL * 1000000,
                        pbar := Some (dict_get status ''percent_done'' (JNum 0)),
                        trace := trace w1 @ [Progress (dict_get status ''percent_done'' (JNum 0)),
                          Slept POLLING_INTERVAL]\<rparr>)))"
  unfolding wait_for_processing_def
  by (subst wait_loop.simps)
    (simp add: not_timed_out_at_start Let_def close_pbar_def split: option.splits)

lemma poll_clock_stuck_service:
  "poll_clock stuck_service req i t n = t + int n * 2000000"
  by (induction n arbitrary: i t) (simp_all add: stuck_service_def POLLING_INTERVAL_def)

section \<open>Facts about timestamps and the example environments\<close>

text \<open>
  The timestamps of two valid datetimes are equal exactly when the datetimes agree up to
  the second.
\<close>

lemma digit_inject: "digit a = digit b \<longleftrightarrow> a mod 10 = b mod 10"
proof -
  have d: "distinct ''0123456789''" by simp
  have "a mod 10 < length ''0123456789''" "b mod 10 < length ''0123456789''" by simp_all
  then show ?thesis unfolding digit_def using d by (simp only: nth_eq_iff_index_eq)
qed

lemma div_mod_10_eq:
  fixes x y :: nat
  assumes "x div 10 = y div 10" "x mod 10 = y mod 10"
  shows "x = y"
  using assms by (metis div_mult_mod_eq)

lemma pad2_inject:
  assumes "a < 100" "b < 100"
  shows "pad2 a = pad2 b \<longleftrightarrow> a = b"
proof
  assume "pad2 a = pad2 b"
  then have e: "a div 10 mod 10 = b div 10 mod 10" "a mod 10 = b mod 10"
    by (simp_all add: pad2_def digit_inject)
  have "a div 10 < 10" "b div 10 < 10" using assms by simp_all
  then have "a div 10 = b div 10" using e(1) by simp
  then show "a = b" using e(2) by (rule div_mod_10_eq)
next
  assume "a = b"
  then show "pad2 a = pad2 b" by simp
qed

lemma div_1000: "(x::nat) div 1000 = x div 100 div 10"
proof -
  have "x div (100 * 10) = x div 100 div 10" by (rule div_mult2_eq)
  then show ?thesis by simp
qed

lemma div_100: "(x::nat) div 100 = x div 10 div 10"
proof -
  have "x div (10 * 10) = x div 10 div 10" by (rule div_mult2_eq)
  then show ?thesis by simp
qed

lemma pad4_digits:
  "pad4 a = pad4 b \<Longrightarrow> a div 1000 mod 10 = b div 1000 mod 10 \<and> a div 100 mod 10 = b div 100 mod 10
    \<and> a div 10 mod 10 = b div 10 mod 10 \<and> a mod 10 = b mod 10"
  unfolding pad4_def by (simp only: list.inject digit_inject) 

lemma pad4_inject:
  assumes "a < 10000" "b < 10000"
  shows "pad4 a = pad4 b \<longleftrightarrow> a = b"
proof
  assume "pad4 a = pad4 b"
  then have e: "a div 1000 mod 10 = b div 1000 mod 10" "a div 100 mod 10 = b div 100 mod 10"
    "a div 10 mod 10 = b div 10 mod 10" "a mod 10 = b mod 10"
    using pad4_digits by blast+
  have "a div 1000 < 10" "b div 1000 < 10" using assms by simp_all
  then have e3: "a div 1000 = b div 1000" using e(1) by simp
  have e2: "a div 100 = b div 100"
  proof (rule div_mod_10_eq)
    show "a div 100 div 10 = b div 100 div 10" using e3 unfolding div_1000 .
    show "a div 100 mod 10 = b div 100 mod 10" by (rule e(2))
  qed
  have e1: "a div 10 = b div 10"
  proof (rule div_mod_10_eq)
    show "a div 10 div 10 = b div 10 div 10" using e2 unfolding div_100 .
    show "a div 10 mod 10 = b div 10 mod 10" by (rule e(3))
  qed
  show "a = b" using e1 e(4) by (rule div_mod_10_eq)
next
  assume "a = b"
  then show "pad4 a = pad4 b" by simp
qed

lemma strftime_eq_iff:
  assumes "valid_datetime s" "valid_datetime t"
  shows "strftime s = strftime t \<longleftrightarrow>
    year s = year t \<and> month s = month t \<and> day s = day t
    \<and> hour s = hour t \<and> minute s = minute t \<and> second s = second t"
proof -
  have "strftime s = strftime t \<longleftrightarrow>
      pad4 (year s) = pad4 (year t) \<and> pad2 (month s) = pad2 (month t)
      \<and> pad2 (day s) = pad2 (day t) \<and> pad2 (hour s) = pad2 (hour t)
      \<and> pad2 (minute s) = pad2 (minute t) \<and> pad2 (second s) = pad2 (second t)"
    by (simp add: strftime_def pad2_def pad4_def)
  then show ?thesis
    using assms by (simp add: valid_datetime_def pad2_inject pad4_inject)
qed

lemma strftime_first_time: "strftime first_time = ''20240517_103000''"
  by (simp add: strftime_def first_time_def pad2_def pad4_def digit_def)

lemma strftime_second_time: "strftime second_time = ''20240517_103000''"
  by (simp add: strftime_def second_time_def pad2_def pad4_def digit_def)

lemma strftime_later_time: "strftime later_time = ''20240517_103001''"
  by (simp add: strftime_def later_time_def pad2_def pad4_def digit_def)

lemma MathpixProcessor_demo: "MathpixProcessor demo_env = Inr demo_processor"
  by (simp add: MathpixProcessor_def demo_env_def demo_processor_def falsy_def)

section \<open>Facts about the file system and \<open>download_results\<close>\<close>

text \<open>
  \<open>mkdir\<close> succeeds exactly when no regular file is in the way, and then it leaves every
  existing node as it is and makes directories of the missing ones.
\<close>

lemma blocked_by_file_iff:
  "blocked_by_file fs p \<longleftrightarrow> (\<exists>q. q \<noteq> [] \<and> prefix q p \<and> is_file (fs q))"
  by (auto simp add: blocked_by_file_def list_ex_iff in_set_prefixes)

lemma is_file_simps [simp]:
  "is_file None = False" "is_file (Some Directory) = False" "is_file (Some (File b)) = True"
  by (simp_all add: is_file_def)

lemma mkdir_walk_ok:
  assumes "\<And>xs. xs \<noteq> [] \<Longrightarrow> prefix xs cs \<Longrightarrow> \<not> is_file (fs (cur @ xs))"
  shows "mkdir_walk fs target cur cs
    = Inr (\<lambda>q. if (\<exists>xs. xs \<noteq> [] \<and> prefix xs cs \<and> q = cur @ xs) \<and> fs q = None
             then Some Directory else fs q)"
  using assms
proof (induction cs arbitrary: fs cur)
  case Nil
  then show ?case by simp
next
  case (Cons c cs)
  have nf: "\<not> is_file (fs (cur @ [c]))" using Cons.prems [of "[c]"] by simp
  have ex: "(\<exists>xs. xs \<noteq> [] \<and> prefix xs (c # cs) \<and> q = cur @ xs)
      \<longleftrightarrow> q = cur @ [c] \<or> (\<exists>ys. ys \<noteq> [] \<and> prefix ys cs \<and> q = (cur @ [c]) @ ys)" for q
  proof
    assume "\<exists>xs. xs \<noteq> [] \<and> prefix xs (c # cs) \<and> q = cur @ xs"
    then obtain xs where xs: "xs \<noteq> []" "prefix xs (c # cs)" "q = cur @ xs" by blast
    then obtain ys where ys: "xs = c # ys" "prefix ys cs" by (auto simp add: prefix_Cons)
    show "q = cur @ [c] \<or> (\<exists>ys. ys \<noteq> [] \<and> prefix ys cs \<and> q = (cur @ [c]) @ ys)"
      using xs ys by (cases "ys = []") auto
  next
    assume "q = cur @ [c] \<or> (\<exists>ys. ys \<noteq> [] \<and> prefix ys cs \<and> q = (cur @ [c]) @ ys)"
    then show "\<exists>xs. xs \<noteq> [] \<and> prefix xs (c # cs) \<and> q = cur @ xs"
    proof
      assume "q = cur @ [c]"
      then show ?thesis by (intro exI [of _ "[c]"]) simp
    next
      assume "\<exists>ys. ys \<noteq> [] \<and> prefix ys cs \<and> q = (cur @ [c]) @ ys"
      then obtain ys where "ys \<noteq> []" "prefix ys cs" "q = (cur @ [c]) @ ys" by blast
      then show ?thesis by (intro exI [of _ "c # ys"]) simp
    qed
  qed
  show ?case
  proof (cases "fs (cur @ [c])")
    case None
    let ?fs = "fs(cur @ [c] \<mapsto> Directory)"
    have p: "\<not> is_file (?fs ((cur @ [c]) @ xs))" if "xs \<noteq> []" "prefix xs cs" for xs
      using Cons.prems [of "c # xs"] that by simp
    have "mkdir_walk fs target cur (c # cs) = mkdir_walk ?fs target (cur @ [c]) cs"
      using None by simp
    also have "\<dots> = Inr (\<lambda>q. if (\<exists>xs. xs \<noteq> [] \<and> prefix xs cs \<and> q = (cur @ [c]) @ xs) \<and> ?fs q = None
             then Some Directory else ?fs q)"
      using p by (rule Cons.IH)
    also have "(\<lambda>q. if (\<exists>xs. xs \<noteq> [] \<and> prefix xs cs \<and> q = (cur @ [c]) @ xs) \<and> ?fs q = None
             then Some Directory else ?fs q)
        = (\<lambda>q. if (\<exists>xs. xs \<noteq> [] \<and> prefix xs (c # cs) \<and> q = cur @ xs) \<and> fs q = None
             then Some Directory else fs q)"
      using None by (auto simp add: fun_eq_iff ex)
    finally show ?thesis .
  next
    case (Some n)
    then have d: "fs (cur @ [c]) = Some Directory" using nf by (cases n) simp_all
    have p: "\<not> is_file (fs ((cur @ [c]) @ xs))" if "xs \<noteq> []" "prefix xs cs" for xs
      using Cons.prems [of "c # xs"] that by simp
    have "mkdir_walk fs target cur (c # cs) = mkdir_walk fs target (cur @ [c]) cs"
      using d by simp
    also have "\<dots> = Inr (\<lambda>q. if (\<exists>xs. xs \<noteq> [] \<and> prefix xs cs \<and> q = (cur @ [c]) @ xs) \<and> fs q = None
             then Some Directory else fs q)"
      using p by (rule Cons.IH)
    also have "(\<lambda>q. if (\<exists>xs. xs \<noteq> [] \<and> prefix xs cs \<and> q = (cur @ [c]) @ xs) \<and> fs q = None
             then Some Directory else fs q)
        = (\<lambda>q. if (\<exists>xs. xs \<noteq> [] \<and> prefix xs (c # cs) \<and> q = cur @ xs) \<and> fs q = None
             then Some Directory else fs q)"
      using d by (auto simp add: fun_eq_iff ex)
    finally show ?thesis .
  qed
qed

lemma mkdir_walk_blocked:
  assumes "xs \<noteq> []" "prefix xs cs" "is_file (fs (cur @ xs))"
  shows "mkdir_walk fs target cur cs = Inl (FileExistsError (path_str target))
    \<or> mkdir_walk fs target cur cs = Inl (NotADirectoryError (path_str target))"
  using assms
proof (induction cs arbitrary: fs cur xs)
  case Nil
  then show ?case by simp
next
  case (Cons c cs)
  obtain ys where ys: "xs = c # ys" "prefix ys cs"
    using Cons.prems(1,2) by (auto simp add: prefix_Cons)
  show ?case
  proof (cases "fs (cur @ [c])")
    case None
    then have ne: "ys \<noteq> []" using Cons.prems(3) ys by auto
    have f: "is_file ((fs(cur @ [c] \<mapsto> Directory)) ((cur @ [c]) @ ys))"
      using Cons.prems(3) ys ne by simp
    have "mkdir_walk fs target cur (c # cs)
        = mkdir_walk (fs(cur @ [c] \<mapsto> Directory)) target (cur @ [c]) cs"
      using None by simp
    then show ?thesis
      using Cons.IH [of ys "fs(cur @ [c] \<mapsto> Directory)" "cur @ [c]", OF ne ys(2) f]
      by (simp only:)
  next
    case (Some n)
    show ?thesis
    proof (cases n)
      case Directory
      then have ne: "ys \<noteq> []" using Cons.prems(3) ys Some by auto
      have f: "is_file (fs ((cur @ [c]) @ ys))" using Cons.prems(3) ys by simp
      have "mkdir_walk fs target cur (c # cs) = mkdir_walk fs target (cur @ [c]) cs"
        using Some Directory by simp
      then show ?thesis
        using Cons.IH [of ys fs "cur @ [c]", OF ne ys(2) f] by (simp only:)
    next
      case (File b)
      then show ?thesis using Some by simp
    qed
  qed
qed

lemma mkdir_parents_exist_ok_free:
  "\<not> blocked_by_file fs p \<Longrightarrow> mkdir_parents_exist_ok fs p = Inr (made_dirs fs p)"
proof -
  assume "\<not> blocked_by_file fs p"
  then have "\<And>xs. xs \<noteq> [] \<Longrightarrow> prefix xs p \<Longrightarrow> \<not> is_file (fs ([] @ xs))"
    by (auto simp add: blocked_by_file_iff)
  then have "mkdir_walk fs p [] p
    = Inr (\<lambda>q. if (\<exists>xs. xs \<noteq> [] \<and> prefix xs p \<and> q = [] @ xs) \<and> fs q = None
             then Some Directory else fs q)"
    by (rule mkdir_walk_ok)
  then show ?thesis by (simp add: mkdir_parents_exist_ok_def made_dirs_def)
qed

lemma mkdir_parents_exist_ok_blocked:
  "blocked_by_file fs p \<Longrightarrow>
   mkdir_parents_exist_ok fs p = Inl (FileExistsError (path_str p))
   \<or> mkdir_parents_exist_ok fs p = Inl (NotADirectoryError (path_str p))"
proof -
  assume "blocked_by_file fs p"
  then obtain q where "q \<noteq> []" "prefix q p" "is_file (fs ([] @ q))"
    by (auto simp add: blocked_by_file_iff)
  then show ?thesis
    unfolding mkdir_parents_exist_ok_def by (rule mkdir_walk_blocked)
qed


lemma all_dirs_iff: "all_dirs fs p \<longleftrightarrow> (\<forall>q. q \<noteq> [] \<and> prefix q p \<longrightarrow> fs q = Some Directory)"
  by (auto simp add: all_dirs_def list_all_iff in_set_prefixes)

lemma notes_name_inject [simp]: "notes_name ts f = notes_name ts f' \<longleftrightarrow> f = f'"
  by (simp add: notes_name_def)

lemma parent_error_none:
  assumes "\<And>xs. xs \<noteq> [] \<Longrightarrow> prefix xs cs \<Longrightarrow> fs (cur @ xs) = Some Directory"
  shows "parent_error fs target cur cs = None"
  using assms
proof (induction cs arbitrary: cur)
  case Nil
  then show ?case by simp
next
  case (Cons c cs)
  have d: "fs (cur @ [c]) = Some Directory" using Cons.prems [of "[c]"] by simp
  have "parent_error fs target (cur @ [c]) cs = None"
  proof (rule Cons.IH)
    fix xs :: "string list" assume "xs \<noteq> []" "prefix xs cs"
    then show "fs ((cur @ [c]) @ xs) = Some Directory" using Cons.prems [of "c # xs"] by simp
  qed
  then show ?case using d by simp
qed

lemma write_bytes_ok:
  assumes "all_dirs fs dir" "fs (dir @ [name]) \<noteq> Some Directory"
  shows "write_bytes fs (dir @ [name]) bytes = Inr (fs(dir @ [name] \<mapsto> File bytes))"
proof -
  have "parent_error fs (dir @ [name]) [] dir = None"
    using assms(1) by (intro parent_error_none) (simp add: all_dirs_iff)
  then show ?thesis using assms(2) by (simp add: write_bytes_def)
qed

lemma write_bytes_Inr:
  "write_bytes fs p bytes = Inr fs' \<Longrightarrow> fs' = fs(p \<mapsto> File bytes)"
  by (auto simp add: write_bytes_def split: option.splits if_splits)

lemma all_dirs_update: "all_dirs fs dir \<Longrightarrow> all_dirs (fs(dir @ [name] \<mapsto> v)) dir"
  by (auto simp add: all_dirs_iff)

lemma made_dirs_all_dirs: "\<not> blocked_by_file fs p \<Longrightarrow> all_dirs (made_dirs fs p) p"
proof -
  assume nb: "\<not> blocked_by_file fs p"
  have "made_dirs fs p q = Some Directory" if "q \<noteq> []" "prefix q p" for q
  proof (cases "fs q")
    case None
    then show ?thesis using that by (simp add: made_dirs_def)
  next
    case (Some n)
    have "\<not> is_file (fs q)" using nb that by (auto simp add: blocked_by_file_iff)
    then show ?thesis using Some by (cases n) (simp_all add: made_dirs_def)
  qed
  then show ?thesis by (simp add: all_dirs_iff)
qed

lemma made_dirs_other: "\<not> prefix q p \<Longrightarrow> made_dirs fs p q = fs q"
  by (simp add: made_dirs_def)

lemma download_loop_Cons:
  "download_loop self http pdf_id dir ts (fmt # fmts) outs env =
     (if status_code (http (download_request self pdf_id fmt)) = 200
      then case write_bytes (disk_of env) (dir @ [notes_name ts fmt])
                  (content (http (download_request self pdf_id fmt))) of
             Inl e \<Rightarrow> (Inl e, env\<lparr>sent := sent env @ [download_request self pdf_id fmt]\<rparr>)
           | Inr fs' \<Rightarrow> download_loop self http pdf_id dir ts fmts
               (outs(fmt \<mapsto> dir @ [notes_name ts fmt]))
               (env\<lparr>sent := sent env @ [download_request self pdf_id fmt], disk_of := fs'\<rparr>)
      else download_loop self http pdf_id dir ts fmts outs
             (env\<lparr>sent := sent env @ [download_request self pdf_id fmt]\<rparr>))"
  by (simp add: download_request_def notes_name_def Let_def split: sum.splits)

declare download_loop.simps(2) [simp del]

lemma download_loop_returned:
  assumes "download_loop self http pdf_id dir ts fmts outs env = (Inr out', env')"
  shows "sent env' = sent env @ map (download_request self pdf_id) fmts
    \<and> out' = (\<lambda>f. if f \<in> set fmts \<and> status_code (http (download_request self pdf_id f)) = 200
               then Some (dir @ [notes_name ts f]) else outs f)
    \<and> (\<forall>f. f \<in> set fmts \<and> status_code (http (download_request self pdf_id f)) = 200 \<longrightarrow>
          disk_of env' (dir @ [notes_name ts f])
            = Some (File (content (http (download_request self pdf_id f)))))
    \<and> (\<forall>q. (\<forall>f. f \<in> set fmts \<and> status_code (http (download_request self pdf_id f)) = 200 \<longrightarrow>
               q \<noteq> dir @ [notes_name ts f]) \<longrightarrow> disk_of env' q = disk_of env q)"
  using assms
proof (induction fmts arbitrary: outs env)
  case Nil
  then show ?case by auto
next
  case (Cons fmt fmts)
  let ?req = "download_request self pdf_id"
  let ?ok = "\<lambda>f. status_code (http (?req f)) = 200"
  let ?p = "\<lambda>f. dir @ [notes_name ts f]"
  show ?case
  proof (cases "?ok fmt")
    case False
    let ?env1 = "env\<lparr>sent := sent env @ [?req fmt]\<rparr>"
    have "download_loop self http pdf_id dir ts fmts outs ?env1 = (Inr out', env')"
      using Cons.prems False by (simp only: download_loop_Cons if_False)
    from Cons.IH [OF this] show ?thesis using False by (auto simp add: fun_eq_iff)
  next
    case True
    obtain fs' where w: "write_bytes (disk_of env) (?p fmt) (content (http (?req fmt))) = Inr fs'"
      using Cons.prems True
      by (cases "write_bytes (disk_of env) (?p fmt) (content (http (?req fmt)))")
        (simp_all add: download_loop_Cons)
    then have fs': "fs' = (disk_of env)(?p fmt \<mapsto> File (content (http (?req fmt))))"
      by (rule write_bytes_Inr)
    let ?env1 = "env\<lparr>sent := sent env @ [?req fmt], disk_of := fs'\<rparr>"
    have "download_loop self http pdf_id dir ts fmts (outs(fmt \<mapsto> ?p fmt)) ?env1 = (Inr out', env')"
      using Cons.prems True w by (simp add: download_loop_Cons)
    from Cons.IH [OF this]
    have ih: "sent env' = sent ?env1 @ map ?req fmts"
      "out' = (\<lambda>f. if f \<in> set fmts \<and> ?ok f then Some (?p f) else (outs(fmt \<mapsto> ?p fmt)) f)"
      "\<forall>f. f \<in> set fmts \<and> ?ok f \<longrightarrow> disk_of env' (?p f) = Some (File (content (http (?req f))))"
      "\<forall>q. (\<forall>f. f \<in> set fmts \<and> ?ok f \<longrightarrow> q \<noteq> ?p f) \<longrightarrow> disk_of env' q = disk_of ?env1 q"
      by blast+
    have a: "sent env' = sent env @ map ?req (fmt # fmts)" using ih(1) by simp
    have b: "out' = (\<lambda>f. if f \<in> set (fmt # fmts) \<and> ?ok f then Some (?p f) else outs f)"
      using ih(2) True by (auto simp add: fun_eq_iff)
    have c: "disk_of env' (?p f) = Some (File (content (http (?req f))))"
      if "f \<in> set (fmt # fmts)" "?ok f" for f
    proof (cases "f \<in> set fmts")
      case True
      then show ?thesis using ih(3) that(2) by blast
    next
      case False
      then have "f = fmt" using that(1) by simp
      moreover have "\<forall>f. f \<in> set fmts \<and> ?ok f \<longrightarrow> ?p fmt \<noteq> ?p f"
        using False \<open>f = fmt\<close> by auto
      then have "disk_of env' (?p fmt) = disk_of ?env1 (?p fmt)"
        using ih(4) by blast
      ultimately show ?thesis by (simp add: fs')
    qed
    have d: "disk_of env' q = disk_of env q"
      if "\<forall>f. f \<in> set (fmt # fmts) \<and> ?ok f \<longrightarrow> q \<noteq> ?p f" for q
    proof -
      have "disk_of env' q = disk_of ?env1 q" using ih(4) that by auto
      moreover have "q \<noteq> ?p fmt" using that True by auto
      ultimately show ?thesis by (simp add: fs')
    qed
    show ?thesis using a b c d by blast
  qed
qed

lemma download_loop_returns:
  assumes "all_dirs (disk_of env) dir"
    and "\<And>f. f \<in> set fmts \<Longrightarrow> status_code (http (download_request self pdf_id f)) = 200 \<Longrightarrow>
          disk_of env (dir @ [notes_name ts f]) \<noteq> Some Directory"
  shows "\<exists>out' env'. download_loop self http pdf_id dir ts fmts outs env = (Inr out', env')"
  using assms
proof (induction fmts arbitrary: outs env)
  case Nil
  then show ?case by simp
next
  case (Cons fmt fmts)
  let ?req = "download_request self pdf_id"
  let ?p = "\<lambda>f. dir @ [notes_name ts f]"
  show ?case
  proof (cases "status_code (http (?req fmt)) = 200")
    case False
    let ?env1 = "env\<lparr>sent := sent env @ [?req fmt]\<rparr>"
    have "\<exists>out' env'. download_loop self http pdf_id dir ts fmts outs ?env1 = (Inr out', env')"
      using Cons.prems by (intro Cons.IH) simp_all
    then show ?thesis using False by (simp only: download_loop_Cons if_False)
  next
    case True
    let ?fs = "(disk_of env)(?p fmt \<mapsto> File (content (http (?req fmt))))"
    let ?env1 = "env\<lparr>sent := sent env @ [?req fmt], disk_of := ?fs\<rparr>"
    have w: "write_bytes (disk_of env) (?p fmt) (content (http (?req fmt))) = Inr ?fs"
      using Cons.prems(1) Cons.prems(2) [of fmt] True by (intro write_bytes_ok) simp_all
    have "\<exists>out' env'. download_loop self http pdf_id dir ts fmts (outs(fmt \<mapsto> ?p fmt)) ?env1
        = (Inr out', env')"
    proof (rule Cons.IH)
      show "all_dirs (disk_of ?env1) dir" using Cons.prems(1) by (simp add: all_dirs_update)
    next
      fix f assume "f \<in> set fmts" "status_code (http (?req f)) = 200"
      then show "disk_of ?env1 (?p f) \<noteq> Some Directory"
        using Cons.prems(2) [of f] by simp
    qed
    then show ?thesis using True w by (simp add: download_loop_Cons)
  qed
qed


lemma output_path_notes: "output_path output_dir ts fmt = (output_dir @ [ts]) @ [notes_name ts fmt]"
  by (simp add: output_path_def notes_name_def)

lemma output_path_inject:
  "output_path d ts fmt = output_path d ts' fmt' \<longleftrightarrow> ts = ts' \<and> fmt = fmt'"
  by (auto simp add: output_path_def)

lemma download_results_for_blocked:
  assumes "blocked_by_file fs (output_dir @ [strftime now])"
  shows "snd (download_results_for formats self http now fs pdf_id output_dir)
      = \<lparr>disk_of = fs, sent = []\<rparr>
    \<and> (fst (download_results_for formats self http now fs pdf_id output_dir)
          = Inl (FileExistsError (path_str (output_dir @ [strftime now])))
       \<or> fst (download_results_for formats self http now fs pdf_id output_dir)
          = Inl (NotADirectoryError (path_str (output_dir @ [strftime now]))))"
  using mkdir_parents_exist_ok_blocked [OF assms]
  by (auto simp add: download_results_for_def Let_def)

lemma download_results_for_free:
  assumes "\<not> blocked_by_file fs (output_dir @ [strftime now])"
  shows "download_results_for formats self http now fs pdf_id output_dir
    = download_loop self http pdf_id (output_dir @ [strftime now]) (strftime now)
        (map fst formats) Map.empty
        \<lparr>disk_of = made_dirs fs (output_dir @ [strftime now]), sent = []\<rparr>"
  using mkdir_parents_exist_ok_free [OF assms]
  by (simp add: download_results_for_def Let_def)

lemma download_results_for_returned:
  assumes "download_results_for formats self http now fs pdf_id output_dir = (Inr out, env)"
  shows "\<not> blocked_by_file fs (output_dir @ [strftime now])"
    and "sent env = map (download_request self pdf_id) (map fst formats)"
    and "out = (\<lambda>f. if f \<in> fst ` set formats
                      \<and> status_code (http (download_request self pdf_id f)) = 200
                 then Some (output_path output_dir (strftime now) f) else None)"
    and "\<And>f. f \<in> fst ` set formats \<Longrightarrow> status_code (http (download_request self pdf_id f)) = 200
          \<Longrightarrow> disk_of env (output_path output_dir (strftime now) f)
            = Some (File (content (http (download_request self pdf_id f))))"
    and "\<And>q. (\<And>f. q \<noteq> output_path output_dir (strftime now) f)
          \<Longrightarrow> disk_of env q = made_dirs fs (output_dir @ [strftime now]) q"
    and "disk_of env (output_dir @ [strftime now]) = Some Directory"
proof -
  let ?dir = "output_dir @ [strftime now]"
  show nb: "\<not> blocked_by_file fs ?dir"
  proof
    assume "blocked_by_file fs ?dir"
    from download_results_for_blocked [OF this, of formats self http pdf_id]
    show False using assms by auto
  qed
  have loop: "download_loop self http pdf_id ?dir (strftime now) (map fst formats) Map.empty
        \<lparr>disk_of = made_dirs fs ?dir, sent = []\<rparr> = (Inr out, env)"
    using assms download_results_for_free [OF nb, of formats self http pdf_id] by simp
  note r = download_loop_returned [OF loop]
  show "sent env = map (download_request self pdf_id) (map fst formats)" using r by simp
  show "out = (\<lambda>f. if f \<in> fst ` set formats
                      \<and> status_code (http (download_request self pdf_id f)) = 200
                 then Some (output_path output_dir (strftime now) f) else None)"
    using r by (auto simp add: output_path_notes fun_eq_iff)
  show "disk_of env (output_path output_dir (strftime now) f)
            = Some (File (content (http (download_request self pdf_id f))))"
    if "f \<in> fst ` set formats" "status_code (http (download_request self pdf_id f)) = 200" for f
    using r that by (simp add: output_path_notes)
  have other: "disk_of env q = made_dirs fs ?dir q"
    if "\<And>f. q \<noteq> output_path output_dir (strftime now) f" for q
  proof -
    have "\<forall>f. f \<in> set (map fst formats)
        \<and> status_code (http (download_request self pdf_id f)) = 200 \<longrightarrow>
        q \<noteq> ?dir @ [notes_name (strftime now) f]"
      using that by (simp add: output_path_notes)
    then have "disk_of env q = disk_of \<lparr>disk_of = made_dirs fs ?dir, sent = []\<rparr> q"
      using r by blast
    then show ?thesis by simp
  qed
  then show "disk_of env q = made_dirs fs ?dir q"
    if "\<And>f. q \<noteq> output_path output_dir (strftime now) f" for q
    using that by blast
  have "disk_of env ?dir = made_dirs fs ?dir ?dir"
    by (rule other) (simp add: output_path_def)
  moreover have "made_dirs fs ?dir ?dir = Some Directory"
    using made_dirs_all_dirs [OF nb] by (simp add: all_dirs_iff)
  ultimately show "disk_of env ?dir = Some Directory" by simp
qed

lemma download_results_for_returns:
  assumes "\<not> blocked_by_file fs (output_dir @ [strftime now])"
    and "\<And>f. f \<in> fst ` set formats \<Longrightarrow> status_code (http (download_request self pdf_id f)) = 200
          \<Longrightarrow> fs (output_path output_dir (strftime now) f) \<noteq> Some Directory"
  shows "\<exists>out env. download_results_for formats self http now fs pdf_id output_dir
    = (Inr out, env)"
proof -
  let ?dir = "output_dir @ [strftime now]"
  have "\<exists>out env. download_loop self http pdf_id ?dir (strftime now) (map fst formats) Map.empty
        \<lparr>disk_of = made_dirs fs ?dir, sent = []\<rparr> = (Inr out, env)"
  proof (rule download_loop_returns)
    show "all_dirs (disk_of \<lparr>disk_of = made_dirs fs ?dir, sent = []\<rparr>) ?dir"
      using made_dirs_all_dirs [OF assms(1)] by simp
  next
    fix f assume f: "f \<in> set (map fst formats)"
      "status_code (http (download_request self pdf_id f)) = 200"
    have "made_dirs fs ?dir (?dir @ [notes_name (strftime now) f])
        = fs (?dir @ [notes_name (strftime now) f])"
      by (rule made_dirs_other) simp
    then show "disk_of \<lparr>disk_of = made_dirs fs ?dir, sent = []\<rparr>
        (?dir @ [notes_name (strftime now) f]) \<noteq> Some Directory"
      using assms(2) [of f] f by (simp add: output_path_notes)
  qed
  then show ?thesis using download_results_for_free [OF assms(1)] by simp
qed

lemma OUTPUT_FORMATS_keys: "fst ` set OUTPUT_FORMATS = {''mmd'', ''tex.zip'', ''html''}"
  by (auto simp add: OUTPUT_FORMATS_def)

lemma write_bytes_error:
  assumes "all_dirs fs dir" "write_bytes fs (dir @ [name]) bytes = Inl e"
  shows "e = IsADirectoryError (path_str (dir @ [name]))"
proof -
  have "parent_error fs (dir @ [name]) [] dir = None"
    using assms(1) by (intro parent_error_none) (simp add: all_dirs_iff)
  then show ?thesis using assms(2) by (simp add: write_bytes_def split: if_splits)
qed

lemma download_loop_raised:
  assumes "all_dirs (disk_of env) dir"
    and "download_loop self http pdf_id dir ts fmts outs env = (Inl e, env')"
  shows "\<exists>f \<in> set fmts. status_code (http (download_request self pdf_id f)) = 200
    \<and> e = IsADirectoryError (path_str (dir @ [notes_name ts f]))"
  using assms
proof (induction fmts arbitrary: outs env)
  case Nil
  then show ?case by simp
next
  case (Cons fmt fmts)
  let ?req = "download_request self pdf_id"
  let ?p = "\<lambda>f. dir @ [notes_name ts f]"
  show ?case
  proof (cases "status_code (http (?req fmt)) = 200")
    case False
    let ?env1 = "env\<lparr>sent := sent env @ [?req fmt]\<rparr>"
    have "download_loop self http pdf_id dir ts fmts outs ?env1 = (Inl e, env')"
      using Cons.prems(2) False by (simp only: download_loop_Cons if_False)
    moreover have "all_dirs (disk_of ?env1) dir" using Cons.prems(1) by simp
    ultimately have "\<exists>f \<in> set fmts. status_code (http (?req f)) = 200
        \<and> e = IsADirectoryError (path_str (?p f))"
      by (rule Cons.IH [rotated])
    then show ?thesis by auto
  next
    case True
    show ?thesis
    proof (cases "write_bytes (disk_of env) (?p fmt) (content (http (?req fmt)))")
      case (Inl e0)
      then have "e = e0" using Cons.prems(2) True by (simp add: download_loop_Cons)
      then show ?thesis using write_bytes_error [OF Cons.prems(1) Inl] True by auto
    next
      case (Inr fs')
      let ?env1 = "env\<lparr>sent := sent env @ [?req fmt], disk_of := fs'\<rparr>"
      have fs': "fs' = (disk_of env)(?p fmt \<mapsto> File (content (http (?req fmt))))"
        using Inr by (rule write_bytes_Inr)
      have l: "download_loop self http pdf_id dir ts fmts (outs(fmt \<mapsto> ?p fmt)) ?env1 = (Inl e, env')"
        using Cons.prems(2) True Inr by (simp add: download_loop_Cons)
      have d: "all_dirs (disk_of ?env1) dir"
        using Cons.prems(1) by (simp add: fs' all_dirs_update)
      have "\<exists>f \<in> set fmts. status_code (http (?req f)) = 200
          \<and> e = IsADirectoryError (path_str (?p f))"
        using d l by (rule Cons.IH)
      then show ?thesis by auto
    qed
  qed
qed

lemma download_results_for_raised:
  assumes "fst (download_results_for formats self http now fs pdf_id output_dir) = Inl e"
  shows "e = FileExistsError (path_str (output_dir @ [strftime now]))
    \<or> e = NotADirectoryError (path_str (output_dir @ [strftime now]))
    \<or> (\<exists>f \<in> fst ` set formats. status_code (http (download_request self pdf_id f)) = 200
        \<and> e = IsADirectoryError (path_str (output_path output_dir (strftime now) f)))"
proof (cases "blocked_by_file fs (output_dir @ [strftime now])")
  case True
  from download_results_for_blocked [OF this, of formats self http pdf_id]
  show ?thesis using assms by auto
next
  case False
  let ?dir = "output_dir @ [strftime now]"
  let ?env = "\<lparr>disk_of = made_dirs fs ?dir, sent = []\<rparr>"
  obtain env' where "download_loop self http pdf_id ?dir (strftime now) (map fst formats)
      Map.empty ?env = (Inl e, env')"
    using assms download_results_for_free [OF False, of formats self http pdf_id]
    by (metis prod.collapse)
  moreover have "all_dirs (disk_of ?env) ?dir" using made_dirs_all_dirs [OF False] by simp
  ultimately have "\<exists>f \<in> set (map fst formats).
      status_code (http (download_request self pdf_id f)) = 200
      \<and> e = IsADirectoryError (path_str (?dir @ [notes_name (strftime now) f]))"
    by (rule download_loop_raised [rotated])
  then show ?thesis by (auto simp add: output_path_notes)
qed

lemma not_blocked_empty_fs: "\<not> blocked_by_file empty_fs p"
  by (simp add: blocked_by_file_iff empty_fs_def)

lemma download_loop_frame:
  assumes "download_loop self http pdf_id dir ts fmts outs env = (r, env')"
    and "\<And>f. q \<noteq> dir @ [notes_name ts f]"
  shows "disk_of env' q = disk_of env q"
  using assms(1)
proof (induction fmts arbitrary: outs env)
  case Nil
  then show ?case by auto
next
  case (Cons fmt fmts)
  let ?req = "download_request self pdf_id"
  let ?p = "\<lambda>f. dir @ [notes_name ts f]"
  show ?case
  proof (cases "status_code (http (?req fmt)) = 200")
    case False
    let ?env1 = "env\<lparr>sent := sent env @ [?req fmt]\<rparr>"
    have "download_loop self http pdf_id dir ts fmts outs ?env1 = (r, env')"
      using Cons.prems False by (simp only: download_loop_Cons if_False)
    then have "disk_of env' q = disk_of ?env1 q" by (rule Cons.IH)
    then show ?thesis by simp
  next
    case True
    show ?thesis
    proof (cases "write_bytes (disk_of env) (?p fmt) (content (http (?req fmt)))")
      case (Inl e0)
      then have "env' = env\<lparr>sent := sent env @ [?req fmt]\<rparr>"
        using Cons.prems True by (simp add: download_loop_Cons)
      then show ?thesis by simp
    next
      case (Inr fs')
      let ?env1 = "env\<lparr>sent := sent env @ [?req fmt], disk_of := fs'\<rparr>"
      have fs': "fs' = (disk_of env)(?p fmt \<mapsto> File (content (http (?req fmt))))"
        using Inr by (rule write_bytes_Inr)
      have "download_loop self http pdf_id dir ts fmts (outs(fmt \<mapsto> ?p fmt)) ?env1 = (r, env')"
        using Cons.prems True Inr by (simp add: download_loop_Cons)
      then have "disk_of env' q = disk_of ?env1 q" by (rule Cons.IH)
      then show ?thesis using assms(2) [of fmt] by (simp add: fs')
    qed
  qed
qed

lemma download_results_for_frame:
  assumes "\<And>f. q \<noteq> output_path output_dir (strftime now) f"
  shows "disk_of (snd (download_results_for formats self http now fs pdf_id output_dir)) q
    = (if blocked_by_file fs (output_dir @ [strftime now]) then fs q
       else made_dirs fs (output_dir @ [strftime now]) q)"
proof (cases "blocked_by_file fs (output_dir @ [strftime now])")
  case True
  from download_results_for_blocked [OF this, of formats self http pdf_id]
  show ?thesis using True by simp
next
  case False
  let ?dir = "output_dir @ [strftime now]"
  let ?env = "\<lparr>disk_of = made_dirs fs ?dir, sent = []\<rparr>"
  let ?r = "download_results_for formats self http now fs pdf_id output_dir"
  have "download_loop self http pdf_id ?dir (strftime now) (map fst formats) Map.empty ?env
      = (fst ?r, snd ?r)"
    using download_results_for_free [OF False, of formats self http pdf_id] by simp
  moreover have "q \<noteq> ?dir @ [notes_name (strftime now) f]" for f
    using assms [of f] by (simp add: output_path_notes)
  ultimately have "disk_of (snd ?r) q = disk_of ?env q"
    by (rule download_loop_frame)
  then show ?thesis using False by simp
qed

lemma made_dirs_kept: "fs q \<noteq> None \<Longrightarrow> made_dirs fs p q = fs q"
  by (simp add: made_dirs_def)


lemma output_path_not_prefix: "\<not> prefix (output_path output_dir ts fmt) (output_dir @ [ts'])"
proof
  assume "prefix (output_path output_dir ts fmt) (output_dir @ [ts'])"
  then have "length (output_path output_dir ts fmt) \<le> length (output_dir @ [ts'])"
    by (rule prefix_length_le)
  then show False by (simp add: output_path_def)
qed

lemma output_path_not_dir: "q \<noteq> [] \<Longrightarrow> prefix q (output_dir @ [ts']) \<Longrightarrow> q \<noteq> output_path output_dir ts fmt"
  using output_path_not_prefix by blast

lemma download_results_for_evaluated:
  assumes "\<not> blocked_by_file fs (output_dir @ [strftime now])"
    and "\<And>f. f \<in> fst ` set formats \<Longrightarrow> status_code (http (download_request self pdf_id f)) = 200
          \<Longrightarrow> fs (output_path output_dir (strftime now) f) \<noteq> Some Directory"
  shows "fst (download_results_for formats self http now fs pdf_id output_dir)
      = Inr (\<lambda>f. if f \<in> fst ` set formats
                      \<and> status_code (http (download_request self pdf_id f)) = 200
                 then Some (output_path output_dir (strftime now) f) else None)"
    and "\<And>f. f \<in> fst ` set formats \<Longrightarrow> status_code (http (download_request self pdf_id f)) = 200
          \<Longrightarrow> disk_of (snd (download_results_for formats self http now fs pdf_id output_dir))
                (output_path output_dir (strftime now) f)
            = Some (File (content (http (download_request self pdf_id f))))"
proof -
  let ?r = "download_results_for formats self http now fs pdf_id output_dir"
  obtain out env where r: "?r = (Inr out, env)"
    using download_results_for_returns [OF assms] by blast
  note f = download_results_for_returned [OF r]
  show "fst ?r = Inr (\<lambda>f. if f \<in> fst ` set formats
                      \<and> status_code (http (download_request self pdf_id f)) = 200
                 then Some (output_path output_dir (strftime now) f) else None)"
    using r f(3) by simp
  show "disk_of (snd ?r) (output_path output_dir (strftime now) f)
            = Some (File (content (http (download_request self pdf_id f))))"
    if "f \<in> fst ` set formats" "status_code (http (download_request self pdf_id f)) = 200" for f
    using f(4) [OF that] r by simp
qed

text \<open>
  The example runs. The first run starts on an empty file system; the second and the
  later run start on the file system the first run leaves behind.
\<close>

lemma first_run_outcome:
  "fst first_run = Inr (\<lambda>f. if f \<in> {''mmd'', ''tex.zip'', ''html''}
      then Some (output_path [''processed_notes''] ''20240517_103000'' f) else None)"
    "f \<in> {''mmd'', ''tex.zip'', ''html''} \<Longrightarrow>
      disk_of (snd first_run) (output_path [''processed_notes''] ''20240517_103000'' f)
        = Some (File ''first'')"
    "(\<And>f. q \<noteq> output_path [''processed_notes''] ''20240517_103000'' f) \<Longrightarrow>
      disk_of (snd first_run) q
        = made_dirs empty_fs [''processed_notes'', ''20240517_103000''] q"
proof -
  have nb: "\<not> blocked_by_file empty_fs ([''processed_notes''] @ [strftime first_time])"
    by (rule not_blocked_empty_fs)
  have nd: "empty_fs (output_path [''processed_notes''] (strftime first_time) f) \<noteq> Some Directory"
    for f by (simp add: empty_fs_def)
  note e = download_results_for_evaluated [where formats = OUTPUT_FORMATS
      and self = demo_processor and http = first_service and pdf_id = "''job''",
      OF nb nd, folded download_results_def, folded first_run_def,
      unfolded OUTPUT_FORMATS_keys strftime_first_time]
  show "fst first_run = Inr (\<lambda>f. if f \<in> {''mmd'', ''tex.zip'', ''html''}
      then Some (output_path [''processed_notes''] ''20240517_103000'' f) else None)"
    using e(1) by (simp add: first_service_def)
  show "disk_of (snd first_run) (output_path [''processed_notes''] ''20240517_103000'' f)
        = Some (File ''first'')" if "f \<in> {''mmd'', ''tex.zip'', ''html''}"
    using e(2) [of f] that by (simp add: first_service_def)
  show "disk_of (snd first_run) q
        = made_dirs empty_fs [''processed_notes'', ''20240517_103000''] q"
    if "\<And>f. q \<noteq> output_path [''processed_notes''] ''20240517_103000'' f"
    using download_results_for_frame [where formats = OUTPUT_FORMATS
      and self = demo_processor and http = first_service and pdf_id = "''job''"
      and output_dir = "[''processed_notes'']" and now = first_time and fs = empty_fs
      and q = q, folded download_results_def, folded first_run_def] that nb
    by (simp add: strftime_first_time)
qed

lemma frd_a: "disk_of (snd first_run) [''processed_notes''] = Some Directory"
proof -
  have "[''processed_notes''] \<noteq> output_path [''processed_notes''] ''20240517_103000'' f" for f
    by (simp add: output_path_def)
  then have "disk_of (snd first_run) [''processed_notes'']
      = made_dirs empty_fs [''processed_notes'', ''20240517_103000''] [''processed_notes'']"
    by (rule first_run_outcome(3))
  then show ?thesis by (simp add: made_dirs_def empty_fs_def)
qed

lemma frd_b: "\<not> is_file (disk_of (snd first_run) [''processed_notes'', ts])"
proof -
  have "[''processed_notes'', ts] \<noteq> output_path [''processed_notes''] ''20240517_103000'' f" for f
    by (simp add: output_path_def)
  then have "disk_of (snd first_run) [''processed_notes'', ts]
      = made_dirs empty_fs [''processed_notes'', ''20240517_103000''] [''processed_notes'', ts]"
    by (rule first_run_outcome(3))
  then show ?thesis by (simp add: made_dirs_def empty_fs_def)
qed

lemma prefix_two:
  assumes "q \<noteq> []" "prefix q [a, b]"
  shows "q = [a] \<or> q = [a, b]"
proof -
  have "set (prefixes [a, b]) = {[], [a], [a, b]}" by auto
  moreover have "q \<in> set (prefixes [a, b])" using assms(2) by (simp only: in_set_prefixes)
  ultimately show ?thesis using assms(1) by blast
qed

lemma first_run_dirs:
  "\<not> blocked_by_file (disk_of (snd first_run)) [''processed_notes'', ts]"
proof -
  have "\<not> is_file (disk_of (snd first_run) q)"
    if "q \<noteq> []" "prefix q [''processed_notes'', ts]" for q
  proof -
    have "q = [''processed_notes''] \<or> q = [''processed_notes'', ts]"
      using that by (rule prefix_two)
    then show ?thesis
    proof
      assume "q = [''processed_notes'']"
      then show ?thesis using frd_a is_file_simps(2) by metis
    next
      assume "q = [''processed_notes'', ts]"
      then show ?thesis using frd_b [of ts] by blast
    qed
  qed
  then show ?thesis unfolding blocked_by_file_iff by blast
qed

lemma first_run_free:
  assumes "ts \<noteq> ''20240517_103000''"
  shows "disk_of (snd first_run) (output_path [''processed_notes''] ts f) = None"
proof -
  have "output_path [''processed_notes''] ts f
      \<noteq> output_path [''processed_notes''] ''20240517_103000'' f'" for f'
    using assms by (simp only: output_path_inject) blast
  then have "disk_of (snd first_run) (output_path [''processed_notes''] ts f)
      = made_dirs empty_fs [''processed_notes'', ''20240517_103000'']
          (output_path [''processed_notes''] ts f)"
    by (rule first_run_outcome(3))
  also have "\<dots> = empty_fs (output_path [''processed_notes''] ts f)"
    using output_path_not_prefix [of "[''processed_notes'']" ts f "''20240517_103000''"]
    by (intro made_dirs_other) simp
  finally show ?thesis by (simp add: empty_fs_def)
qed

lemma returned_path_Inr: "fst r = Inr out \<Longrightarrow> returned_path r fmt = out fmt"
  by (simp add: returned_path_def)

lemma second_run_outcome:
  "fst second_run = Inr (\<lambda>f. if f \<in> {''mmd'', ''tex.zip'', ''html''}
      then Some (output_path [''processed_notes''] ''20240517_103000'' f) else None)"
    "f \<in> {''mmd'', ''tex.zip'', ''html''} \<Longrightarrow>
      disk_of (snd second_run) (output_path [''processed_notes''] ''20240517_103000'' f)
        = Some (File ''second'')"
proof -
  have nb: "\<not> blocked_by_file (disk_of (snd first_run))
      ([''processed_notes''] @ [strftime second_time])"
    using first_run_dirs [of "strftime second_time"] by simp
  have nd: "disk_of (snd first_run)
      (output_path [''processed_notes''] (strftime second_time) f) \<noteq> Some Directory"
    if "f \<in> fst ` set OUTPUT_FORMATS" for f
    using first_run_outcome(2) [of f] that
    by (simp add: OUTPUT_FORMATS_keys strftime_second_time)
  note e = download_results_for_evaluated [where formats = OUTPUT_FORMATS
      and self = demo_processor and http = second_service and pdf_id = "''job''",
      OF nb nd, folded download_results_def, folded second_run_def,
      unfolded OUTPUT_FORMATS_keys strftime_second_time]
  show "fst second_run = Inr (\<lambda>f. if f \<in> {''mmd'', ''tex.zip'', ''html''}
      then Some (output_path [''processed_notes''] ''20240517_103000'' f) else None)"
    using e(1) by (simp add: second_service_def)
  show "disk_of (snd second_run) (output_path [''processed_notes''] ''20240517_103000'' f)
        = Some (File ''second'')" if "f \<in> {''mmd'', ''tex.zip'', ''html''}"
    using e(2) [of f] that by (simp add: second_service_def)
qed

lemma sibling_not_prefix: "ts \<noteq> ts' \<Longrightarrow> \<not> prefix (d @ [ts]) (d @ [ts'])"
  by simp

lemma prefix_of_sibling:
  assumes "prefix q (d @ [ts])"
  shows "q = d @ [ts] \<or> prefix q (d @ [ts'])"
  using assms by (auto simp add: prefix_snoc)

section \<open>Properties of \<open>calculate_cost\<close>\<close>

lemma float_of_int_40000: "float_of_int 40000 = Inr 40000"
proof -
  have rd: "round_double (of_int 40000) = 40000" by code_simp
  show ?thesis unfolding float_of_int_def Let_def rd by simp
qed

lemma float_mul_40000: "float_mul 40000 (float_literal (25 / 1000)) = Fin 1000"
proof -
  have rd: "round_double (40000 * float_literal (25 / 1000)) = 1000"
    unfolding float_literal_def by code_simp
  show ?thesis unfolding float_mul_def Let_def rd by simp
qed

lemma calculate_cost_40000: "calculate_cost 40000 = Inr (Fin 1000)"
  unfolding calculate_cost_def int_mul_float_def float_of_int_40000
  by (simp only: float_mul_40000 sum.case if_True) simp

lemma float_of_int_40001: "float_of_int 40001 = Inr 40001"
proof -
  have rd: "round_double (of_int 40001) = 40001" by code_simp
  show ?thesis unfolding float_of_int_def Let_def rd by simp
qed

lemma float_literal_400_01: "float_literal (40001 / 100) < 1000"
  unfolding float_literal_def by code_simp

lemma float_mul_40001:
  "float_mul 40001 (float_literal (1 / 100)) = Fin (float_literal (40001 / 100))"
proof -
  have rd: "round_double (40001 * float_literal (1 / 100)) = float_literal (40001 / 100)"
    unfolding float_literal_def by code_simp
  have lo: "0 \<le> float_literal (40001 / 100)"
    unfolding float_literal_def by code_simp
  have "\<not> 2 ^ 1024 \<le> float_literal (40001 / 100)"
    using float_literal_400_01 by simp
  moreover have "\<not> float_literal (40001 / 100) \<le> - (2 ^ 1024)"
    using lo by simp
  ultimately show ?thesis unfolding float_mul_def Let_def rd by (simp only: if_False)
qed

lemma calculate_cost_40001: "calculate_cost 40001 = Inr (Fin (float_literal (40001 / 100)))"
  unfolding calculate_cost_def int_mul_float_def float_of_int_40001
  by (simp only: float_mul_40001 sum.case) simp

text \<open>
  Claim C1. For a page count from 0 to 40000 the estimate is the Python product
  \<open>page_count * 0.025\<close>, which is the double nearest to the exact product of the page
  count and the double 0.025; above 40000 it is the Python product
  \<open>page_count * 0.01\<close>, a positive float as long as the page count converts to a
  float; and 40000 pages cost exactly 1000.0, at the lower tier's rate.
\<close>

theorem calculate_cost_tiers:
  "(0 \<le> n \<and> n \<le> 40000 \<longrightarrow>
      calculate_cost n = int_mul_float n (float_literal (25 / 1000))
      \<and> calculate_cost n = Inr (Fin (round_double (of_int n * float_literal (25 / 1000)))))
   \<and> (40000 < n \<longrightarrow> calculate_cost n = int_mul_float n (float_literal (1 / 100)))
   \<and> (40000 < n \<and> n < 2 ^ 1024 - 2 ^ 970 \<longrightarrow> (\<exists>r. calculate_cost n = Inr (Fin r) \<and> 0 < r))
   \<and> calculate_cost 40000 = Inr (Fin 1000)"
  using calculate_cost_nonneg_low [of n] calculate_cost_high_finite [of n] calculate_cost_40000
  by (simp add: calculate_cost_def)

theorem calculate_cost_tiers_witness:
  "(0::int) \<le> 100 \<and> (100::int) \<le> 40000
   \<and> calculate_cost 100 = int_mul_float 100 (float_literal (25 / 1000))
   \<and> calculate_cost 100 = Inr (Fin (round_double (of_int 100 * float_literal (25 / 1000))))
   \<and> (40000::int) < 50000 \<and> (50000::int) < 2 ^ 1024 - 2 ^ 970
   \<and> calculate_cost 50000 = int_mul_float 50000 (float_literal (1 / 100))
   \<and> (\<exists>r. calculate_cost 50000 = Inr (Fin r) \<and> 0 < r)"
proof -
  have "(0::int) \<le> 100 \<and> (100::int) \<le> 40000"
    and "(40000::int) < 50000 \<and> (50000::int) < 2 ^ 1024 - 2 ^ 970" by simp_all
  then show ?thesis
    using calculate_cost_tiers [of 100] calculate_cost_tiers [of 50000] by blast
qed

text \<open>
  Claim C8, as stated, fails for a negative page count too large for a float: the
  conversion of the int raises OverflowError and no amount is returned.
\<close>

theorem calculate_cost_negative_counterexample:
  "calculate_cost (- (2 ^ 1024)) = Inl (OverflowError ''int too large to convert to float'')"
  by (rule calculate_cost_overflow) simp

text \<open>
  Claim C8, amended. Zero pages cost 0. A negative page count is not validated: when it
  is above \<open>-(2^1024 - 2^970)\<close> the function returns a negative amount, the product
  \<open>page_count * 0.025\<close>; from \<open>-(2^1024 - 2^970)\<close> downwards it raises OverflowError.
\<close>

theorem calculate_cost_zero_and_negative:
  "calculate_cost 0 = Inr (Fin 0)
   \<and> (n < 0 \<and> - (2 ^ 1024 - 2 ^ 970) < n \<longrightarrow>
        (\<exists>r. calculate_cost n = Inr (Fin r) \<and> r < 0
           \<and> int_mul_float n (float_literal (25 / 1000)) = Inr (Fin r)))
   \<and> (n \<le> - (2 ^ 1024 - 2 ^ 970) \<longrightarrow>
        calculate_cost n = Inl (OverflowError ''int too large to convert to float''))"
proof -
  have "\<exists>r. calculate_cost n = Inr (Fin r) \<and> r < 0
      \<and> int_mul_float n (float_literal (25 / 1000)) = Inr (Fin r)"
    if neg: "n < 0" "- (2 ^ 1024 - 2 ^ 970) < n"
  proof -
    obtain r where r: "calculate_cost n = Inr (Fin r)" "r < 0"
      using calculate_cost_negative_finite [OF neg] by blast
    have "calculate_cost n = int_mul_float n (float_literal (25 / 1000))"
      using neg(1) by (simp add: calculate_cost_def)
    with r show ?thesis by simp
  qed
  then show ?thesis using calculate_cost_zero calculate_cost_overflow [of n] by blast
qed

theorem calculate_cost_zero_and_negative_witness:
  "(- 3 :: int) < 0 \<and> - (2 ^ 1024 - 2 ^ 970) < (- 3 :: int)
   \<and> (\<exists>r. calculate_cost (- 3) = Inr (Fin r) \<and> r < 0
         \<and> int_mul_float (- 3) (float_literal (25 / 1000)) = Inr (Fin r))
   \<and> - (2 ^ 1024) \<le> - (2 ^ 1024 - 2 ^ 970 :: int)
   \<and> calculate_cost (- (2 ^ 1024)) = Inl (OverflowError ''int too large to convert to float'')"
proof -
  have "(- 3 :: int) < 0 \<and> - (2 ^ 1024 - 2 ^ 970) < (- 3 :: int)"
    and "- (2 ^ 1024) \<le> - (2 ^ 1024 - 2 ^ 970 :: int)" by simp_all
  then show ?thesis
    using calculate_cost_zero_and_negative [of "- 3"]
      calculate_cost_zero_and_negative [of "- (2 ^ 1024)"] by blast
qed

text \<open>
  Claim C9. The estimate is not monotone in the page count: 40000 pages cost 1000.0,
  while 40001 pages cost the float 400.01, which is less.
\<close>

theorem calculate_cost_not_monotone:
  "calculate_cost 40000 = Inr (Fin 1000)
   \<and> calculate_cost 40001 = Inr (Fin (float_literal (40001 / 100)))
   \<and> float_literal (40001 / 100) < 1000
   \<and> (\<exists>m n a b. m < n \<and> calculate_cost m = Inr (Fin a) \<and> calculate_cost n = Inr (Fin b) \<and> b < a)"
proof -
  have "(40000::int) < 40001" by simp
  then have "\<exists>m n a b. m < n \<and> calculate_cost m = Inr (Fin a)
      \<and> calculate_cost n = Inr (Fin b) \<and> b < a"
    using calculate_cost_40000 calculate_cost_40001 float_literal_400_01 by blast
  then show ?thesis
    using calculate_cost_40000 calculate_cost_40001 float_literal_400_01 by simp
qed

section \<open>Properties of \<open>process_pdf\<close>\<close>

text \<open>
  Claim C7, as stated, fails where the service rejects the credentials: the processor
  was constructed, the upload is answered with status 401, and process_pdf raises the
  same exception as for any other failed upload, not an authentication error.
\<close>

theorem submit_rejected_counterexample:
  "submit demo_env rejecting_service demo_disk ''notes.pdf''
     = Inl (ExceptionText ''PDF processing failed: '' ''Invalid credentials'')"
  by (simp add: submit_def MathpixProcessor_demo process_pdf_def demo_disk_def
      rejecting_service_def)

text \<open>
  Claim C7, amended. With credentials absent (unset or empty) the construction of the
  processor raises EnvironmentError, before anything is uploaded. With credentials
  present and a readable PDF, any upload answered with a status other than 200, the
  rejection of the credentials included, raises the exception that carries the response
  body; an upload answered with 200 returns the \<open>pdf_id\<close> of the response.
\<close>

theorem submit_outcomes:
  "(falsy (getenv ''MATHPIX_APP_ID'') \<or> falsy (getenv ''MATHPIX_APP_KEY'') \<longrightarrow>
      submit getenv http disk pdf_path = Inl (EnvironmentError
        ''Missing Mathpix credentials. Please set MATHPIX_APP_ID and MATHPIX_APP_KEY in .env file''))
   \<and> (MathpixProcessor getenv = Inr self \<and> disk pdf_path = Some pdf
        \<and> status_code (http (upload_request self pdf)) \<noteq> 200 \<longrightarrow>
      submit getenv http disk pdf_path
        = Inl (ExceptionText ''PDF processing failed: '' (content (http (upload_request self pdf)))))
   \<and> (MathpixProcessor getenv = Inr self \<and> disk pdf_path = Some pdf
        \<and> status_code (http (upload_request self pdf)) = 200
        \<and> json_of (http (upload_request self pdf)) = Some body
        \<and> map_of body ''pdf_id'' = Some pdf_id \<longrightarrow>
      submit getenv http disk pdf_path = Inr pdf_id)"
  by (auto simp add: submit_def MathpixProcessor_def process_pdf_def upload_request_def Let_def)

theorem submit_outcomes_witness:
  "falsy (Map.empty ''MATHPIX_APP_ID'')
   \<and> submit Map.empty accepting_service demo_disk ''notes.pdf'' = Inl (EnvironmentError
        ''Missing Mathpix credentials. Please set MATHPIX_APP_ID and MATHPIX_APP_KEY in .env file'')
   \<and> MathpixProcessor demo_env = Inr demo_processor \<and> demo_disk ''notes.pdf'' = Some ''%PDF-1.7''
   \<and> status_code (rejecting_service (upload_request demo_processor ''%PDF-1.7'')) \<noteq> 200
   \<and> submit demo_env rejecting_service demo_disk ''notes.pdf''
        = Inl (ExceptionText ''PDF processing failed: ''
            (content (rejecting_service (upload_request demo_processor ''%PDF-1.7''))))
   \<and> status_code (accepting_service (upload_request demo_processor ''%PDF-1.7'')) = 200
   \<and> json_of (accepting_service (upload_request demo_processor ''%PDF-1.7''))
        = Some [(''pdf_id'', JStr ''job'')]
   \<and> map_of [(''pdf_id'', JStr ''job'')] ''pdf_id'' = Some (JStr ''job'')
   \<and> submit demo_env accepting_service demo_disk ''notes.pdf'' = Inr (JStr ''job'')"
proof -
  have a: "falsy (Map.empty ''MATHPIX_APP_ID'')" by (simp add: falsy_def)
  have b: "MathpixProcessor demo_env = Inr demo_processor \<and> demo_disk ''notes.pdf'' = Some ''%PDF-1.7''"
    by (simp add: MathpixProcessor_demo demo_disk_def)
  have c: "status_code (rejecting_service (upload_request demo_processor ''%PDF-1.7'')) \<noteq> 200"
    by (simp add: rejecting_service_def)
  have d: "status_code (accepting_service (upload_request demo_processor ''%PDF-1.7'')) = 200
    \<and> json_of (accepting_service (upload_request demo_processor ''%PDF-1.7''))
        = Some [(''pdf_id'', JStr ''job'')]
    \<and> map_of [(''pdf_id'', JStr ''job'')] ''pdf_id'' = Some (JStr ''job'')"
    by (simp add: accepting_service_def)
  show ?thesis
    using a b c d
      submit_outcomes [where getenv = Map.empty and http = accepting_service
        and disk = demo_disk and pdf_path = "''notes.pdf''"]
      submit_outcomes [where getenv = demo_env and http = rejecting_service
        and disk = demo_disk and pdf_path = "''notes.pdf''" and self = demo_processor
        and pdf = "''%PDF-1.7''"]
      submit_outcomes [where getenv = demo_env and http = accepting_service
        and disk = demo_disk and pdf_path = "''notes.pdf''" and self = demo_processor
        and pdf = "''%PDF-1.7''" and body = "[(''pdf_id'', JStr ''job'')]"
        and pdf_id = "JStr ''job''"]
    by blast
qed

section \<open>Properties of \<open>wait_for_processing\<close>\<close>

text \<open>
  Claim C4, as stated, fails for a service that never reaches a terminal state but
  reports a progress that is not a number: with \<open>percent_done\<close> null, the first
  \<open>pbar.refresh()\<close> raises TypeError, after one request and before any sleep, and the
  timeout is never reached.
\<close>

theorem wait_for_processing_null_progress_counterexample:
  "wait_for_processing null_progress_service demo_processor ''job'' initial_state
     = (Inl TypeError,
        \<lparr>clock = 0, polls = 1, pbar = Some JNull,
         trace = [Requested (status_request demo_processor ''job'')]\<rparr>)"
  by (simp add: wait_for_processing_first_poll null_progress_service_def initial_state_def
      status_request_def dict_get_def is_number_def Let_def)

text \<open>
  Claim C4, amended. Against a service whose every status response keeps the loop
  polling (a JSON object with a status other than completed and error, and a
  \<open>percent_done\<close> that is absent or a number), wait_for_processing returns, and what
  it returns is TimeoutError. It follows the schedule: there is a number \<open>n\<close> of rounds,
  at least 1 and at most 301, such that the \<open>n\<close> status requests, each followed by the
  progress shown and a sleep of POLLING_INTERVAL = 2 seconds, are all that happens;
  every round starts no more than TIMEOUT = 600 seconds after the start, and the error
  is raised at the first check later than that. A service that reports 0 percent forever
  is such a service.
\<close>

theorem wait_for_processing_timeout:
  "(\<forall>k t. keeps_polling (service k t (status_request self pdf_id))) \<Longrightarrow>
   \<exists>n. 1 \<le> n \<and> n \<le> 301
     \<and> fst (wait_for_processing service self pdf_id w)
         = Inl (TimeoutError ''PDF processing took too long'')
     \<and> polls (snd (wait_for_processing service self pdf_id w)) = polls w + n
     \<and> clock (snd (wait_for_processing service self pdf_id w))
         = poll_clock service (status_request self pdf_id) (polls w) (clock w) n
     \<and> trace (snd (wait_for_processing service self pdf_id w))
         = trace w @ poll_trace service (status_request self pdf_id) (polls w) (clock w) n
     \<and> TIMEOUT * 1000000
         < poll_clock service (status_request self pdf_id) (polls w) (clock w) n - clock w
     \<and> (\<forall>k<n. poll_clock service (status_request self pdf_id) (polls w) (clock w) k - clock w
           \<le> TIMEOUT * 1000000)"
proof -
  assume "\<forall>k t. keeps_polling (service k t (status_request self pdf_id))"
  then have a: "\<And>k t. keeps_polling (service k t (status_request self pdf_id))" by simp
  let ?req = "status_request self pdf_id"
  let ?r = "wait_loop service self pdf_id (clock w) (w\<lparr>pbar := None\<rparr>)"
  obtain n where n: "fst ?r = Inl (TimeoutError ''PDF processing took too long'')"
    "clock (snd ?r) = poll_clock service ?req (polls w) (clock w) n"
    "polls (snd ?r) = polls w + n"
    "trace (snd ?r) = trace w @ poll_trace service ?req (polls w) (clock w) n"
    "600000000 < poll_clock service ?req (polls w) (clock w) n - clock w"
    "\<forall>k<n. poll_clock service ?req (polls w) (clock w) k - clock w \<le> 600000000"
    "int n * 2000000 \<le> max 0 (clock w + 602000000 - clock w)"
    using wait_loop_schedule [of service self pdf_id "clock w" "w\<lparr>pbar := None\<rparr>", OF a]
    by auto
  have "n \<noteq> 0" using n(5) by (cases n) simp_all
  moreover have "n \<le> 301" using n(7) by simp
  ultimately show ?thesis
    using n(1,2,3,4,5,6)
    by (intro exI [of _ n]) (simp add: wait_for_processing_def TIMEOUT_def)
qed

theorem wait_for_processing_timeout_witness:
  "(\<forall>k t. keeps_polling (stuck_service k t (status_request demo_processor ''job'')))
   \<and> fst (wait_for_processing stuck_service demo_processor ''job'' initial_state)
       = Inl (TimeoutError ''PDF processing took too long'')
   \<and> polls (snd (wait_for_processing stuck_service demo_processor ''job'' initial_state)) = 301
   \<and> clock (snd (wait_for_processing stuck_service demo_processor ''job'' initial_state))
       = 602000000
   \<and> trace (snd (wait_for_processing stuck_service demo_processor ''job'' initial_state))
       = poll_trace stuck_service (status_request demo_processor ''job'') 0 0 301"
proof -
  have h: "\<forall>k t. keeps_polling (stuck_service k t (status_request demo_processor ''job''))"
    by (simp add: keeps_polling_def in_progress_def progress_of_def dict_get_def is_number_def
        stuck_service_def)
  let ?r = "wait_for_processing stuck_service demo_processor ''job'' initial_state"
  let ?req = "status_request demo_processor ''job''"
  obtain n where n: "1 \<le> n" "n \<le> 301"
    "fst ?r = Inl (TimeoutError ''PDF processing took too long'')"
    "polls (snd ?r) = polls initial_state + n"
    "clock (snd ?r) = poll_clock stuck_service ?req (polls initial_state) (clock initial_state) n"
    "trace (snd ?r) = trace initial_state
        @ poll_trace stuck_service ?req (polls initial_state) (clock initial_state) n"
    "TIMEOUT * 1000000
        < poll_clock stuck_service ?req (polls initial_state) (clock initial_state) n
          - clock initial_state"
    using wait_for_processing_timeout [where service = stuck_service
        and self = demo_processor and pdf_id = "''job''" and w = initial_state] h
    by blast
  have "600 < int n * 2"
    using n(7) by (simp add: poll_clock_stuck_service TIMEOUT_def initial_state_def)
  then have "n = 301" using n(2) by simp
  then show ?thesis
    using h n(3,4,5,6) by (simp add: poll_clock_stuck_service initial_state_def)
qed

text \<open>
  Claim C6. When the first status response says completed, wait_for_processing returns
  normally after that one request: the trace gains the request and nothing else, so
  there is no sleep and no second request.
\<close>

theorem wait_for_processing_completed:
  "json_of (service (polls w) (clock w) (status_request self pdf_id)) = Some status \<Longrightarrow>
   map_of status ''status'' = Some (JStr ''completed'') \<Longrightarrow>
   fst (wait_for_processing service self pdf_id w) = Inr ()
   \<and> trace (snd (wait_for_processing service self pdf_id w))
       = trace w @ [Requested (status_request self pdf_id)]
   \<and> polls (snd (wait_for_processing service self pdf_id w)) = Suc (polls w)
   \<and> clock (snd (wait_for_processing service self pdf_id w))
       = clock w + int (elapsed (service (polls w) (clock w) (status_request self pdf_id)))"
  by (simp add: wait_for_processing_first_poll status_request_def Let_def)

theorem wait_for_processing_completed_witness:
  "json_of (done_service (polls initial_state) (clock initial_state)
      (status_request demo_processor ''job''))
     = Some [(''status'', JStr ''completed''), (''percent_done'', JNum 100)]
   \<and> map_of [(''status'', JStr ''completed''), (''percent_done'', JNum 100)] ''status''
     = Some (JStr ''completed'')
   \<and> fst (wait_for_processing done_service demo_processor ''job'' initial_state) = Inr ()
   \<and> trace (snd (wait_for_processing done_service demo_processor ''job'' initial_state))
       = [Requested (status_request demo_processor ''job'')]
   \<and> polls (snd (wait_for_processing done_service demo_processor ''job'' initial_state)) = 1"
proof -
  have a: "json_of (done_service (polls initial_state) (clock initial_state)
      (status_request demo_processor ''job''))
     = Some [(''status'', JStr ''completed''), (''percent_done'', JNum 100)]"
    by (simp add: done_service_def)
  have b: "map_of [(''status'', JStr ''completed''), (''percent_done'', JNum 100)] ''status''
     = Some (JStr ''completed'')" by simp
  show ?thesis
    using a b wait_for_processing_completed [where service = done_service
        and self = demo_processor and pdf_id = "''job''" and w = initial_state
        and status = "[(''status'', JStr ''completed''), (''percent_done'', JNum 100)]"]
    by (simp add: initial_state_def)
qed

text \<open>
  Claim C5. When the first status response says error, wait_for_processing raises the
  exception that carries the status object of the service, after that one request and
  without sleeping.
\<close>

theorem wait_for_processing_error:
  "json_of (service (polls w) (clock w) (status_request self pdf_id)) = Some status \<Longrightarrow>
   map_of status ''status'' = Some (JStr ''error'') \<Longrightarrow>
   fst (wait_for_processing service self pdf_id w) = Inl (ExceptionJson ''Processing error: '' status)
   \<and> trace (snd (wait_for_processing service self pdf_id w))
       = trace w @ [Requested (status_request self pdf_id)]
   \<and> polls (snd (wait_for_processing service self pdf_id w)) = Suc (polls w)"
  by (simp add: wait_for_processing_first_poll status_request_def Let_def)

theorem wait_for_processing_error_witness:
  "json_of (error_service (polls initial_state) (clock initial_state)
      (status_request demo_processor ''job''))
     = Some [(''status'', JStr ''error''), (''error'', JStr ''unreadable pdf'')]
   \<and> map_of [(''status'', JStr ''error''), (''error'', JStr ''unreadable pdf'')] ''status''
     = Some (JStr ''error'')
   \<and> fst (wait_for_processing error_service demo_processor ''job'' initial_state)
     = Inl (ExceptionJson ''Processing error: ''
         [(''status'', JStr ''error''), (''error'', JStr ''unreadable pdf'')])
   \<and> trace (snd (wait_for_processing error_service demo_processor ''job'' initial_state))
       = [Requested (status_request demo_processor ''job'')]
   \<and> polls (snd (wait_for_processing error_service demo_processor ''job'' initial_state)) = 1"
proof -
  have a: "json_of (error_service (polls initial_state) (clock initial_state)
      (status_request demo_processor ''job''))
     = Some [(''status'', JStr ''error''), (''error'', JStr ''unreadable pdf'')]"
    by (simp add: error_service_def)
  have b: "map_of [(''status'', JStr ''error''), (''error'', JStr ''unreadable pdf'')] ''status''
     = Some (JStr ''error'')" by simp
  show ?thesis
    using a b wait_for_processing_error [where service = error_service
        and self = demo_processor and pdf_id = "''job''" and w = initial_state
        and status = "[(''status'', JStr ''error''), (''error'', JStr ''unreadable pdf'')]"]
    by (simp add: initial_state_def)
qed

section \<open>Properties of \<open>download_results\<close>\<close>

text \<open>
  Claim C3. Whatever the table of formats, a call of download_results that returns has
  requested one download for each format, in order, whatever the outcome of the others;
  the returned dict has exactly the formats answered with status 200, each with the
  path of its file, which holds the body of the response. A format answered with another
  status is left out and raises nothing: the call returns whenever no regular file
  stands in the way of the timestamped directory and no directory stands where a
  downloaded file goes, and the only errors it can raise are those of the file system:
  FileExistsError or NotADirectoryError from \<open>mkdir\<close>, IsADirectoryError from opening
  the file of a format answered with status 200.
\<close>

theorem download_results_skips_failures:
  "(\<forall>out. fst (download_results_for formats self http now fs pdf_id output_dir) = Inr out \<longrightarrow>
      sent (snd (download_results_for formats self http now fs pdf_id output_dir))
        = map (download_request self pdf_id) (map fst formats)
      \<and> dom out
        = {fmt \<in> fst ` set formats. status_code (http (download_request self pdf_id fmt)) = 200}
      \<and> (\<forall>fmt \<in> dom out.
            out fmt = Some (output_path output_dir (strftime now) fmt)
            \<and> disk_of (snd (download_results_for formats self http now fs pdf_id output_dir))
                (output_path output_dir (strftime now) fmt)
              = Some (File (content (http (download_request self pdf_id fmt))))))
   \<and> (\<not> blocked_by_file fs (output_dir @ [strftime now])
       \<and> (\<forall>fmt \<in> fst ` set formats.
             status_code (http (download_request self pdf_id fmt)) = 200 \<longrightarrow>
             fs (output_path output_dir (strftime now) fmt) \<noteq> Some Directory) \<longrightarrow>
       (\<exists>out. fst (download_results_for formats self http now fs pdf_id output_dir) = Inr out))
   \<and> (\<forall>e. fst (download_results_for formats self http now fs pdf_id output_dir) = Inl e \<longrightarrow>
         e = FileExistsError (path_str (output_dir @ [strftime now]))
         \<or> e = NotADirectoryError (path_str (output_dir @ [strftime now]))
         \<or> (\<exists>fmt \<in> fst ` set formats.
               status_code (http (download_request self pdf_id fmt)) = 200
               \<and> e = IsADirectoryError (path_str (output_path output_dir (strftime now) fmt))))"
proof -
  let ?r = "download_results_for formats self http now fs pdf_id output_dir"
  let ?ok = "\<lambda>fmt. status_code (http (download_request self pdf_id fmt)) = 200"
  have a: "sent (snd ?r) = map (download_request self pdf_id) (map fst formats)
      \<and> dom out = {fmt \<in> fst ` set formats. ?ok fmt}
      \<and> (\<forall>fmt \<in> dom out.
            out fmt = Some (output_path output_dir (strftime now) fmt)
            \<and> disk_of (snd ?r) (output_path output_dir (strftime now) fmt)
              = Some (File (content (http (download_request self pdf_id fmt)))))"
    if r: "fst ?r = Inr out" for out
  proof -
    have eq: "?r = (Inr out, snd ?r)" using r by (metis prod.collapse)
    note f = download_results_for_returned [OF eq]
    have d: "dom out = {fmt \<in> fst ` set formats. ?ok fmt}"
      by (subst f(3)) (auto simp add: dom_def)
    have "out fmt = Some (output_path output_dir (strftime now) fmt)
        \<and> disk_of (snd ?r) (output_path output_dir (strftime now) fmt)
          = Some (File (content (http (download_request self pdf_id fmt))))"
      if m: "fmt \<in> dom out" for fmt
    proof -
      have ok: "fmt \<in> fst ` set formats" "?ok fmt" using m d by auto
      have "out fmt = Some (output_path output_dir (strftime now) fmt)"
        by (subst f(3)) (simp add: ok)
      then show ?thesis using f(4) [OF ok] by simp
    qed
    then show ?thesis using f(2) d by blast
  qed
  have b: "\<exists>out. fst ?r = Inr out"
    if "\<not> blocked_by_file fs (output_dir @ [strftime now])"
      "\<forall>fmt \<in> fst ` set formats. ?ok fmt \<longrightarrow>
         fs (output_path output_dir (strftime now) fmt) \<noteq> Some Directory"
    using download_results_for_returns [of fs output_dir now formats http self pdf_id] that
    by fastforce
  have c: "e = FileExistsError (path_str (output_dir @ [strftime now]))
         \<or> e = NotADirectoryError (path_str (output_dir @ [strftime now]))
         \<or> (\<exists>fmt \<in> fst ` set formats. ?ok fmt
               \<and> e = IsADirectoryError (path_str (output_path output_dir (strftime now) fmt)))"
    if "fst ?r = Inl e" for e
    using that by (rule download_results_for_raised)
  show ?thesis using a b c by blast
qed

theorem download_results_skips_failures_witness:
  "\<not> blocked_by_file empty_fs ([''processed_notes''] @ [strftime first_time])
   \<and> (\<exists>out. fst (download_results demo_processor partial_service first_time
          empty_fs ''job'' [''processed_notes'']) = Inr out
        \<and> dom out = {''mmd'', ''html''}
        \<and> out ''mmd''
          = Some [''processed_notes'', ''20240517_103000'', ''notes_20240517_103000.mmd''])
   \<and> disk_of (snd (download_results demo_processor partial_service first_time
          empty_fs ''job'' [''processed_notes'']))
        [''processed_notes'', ''20240517_103000'', ''notes_20240517_103000.mmd'']
      = Some (File ''data'')"
proof -
  let ?r = "download_results demo_processor partial_service first_time
       empty_fs ''job'' [''processed_notes'']"
  note t = download_results_skips_failures [where formats = OUTPUT_FORMATS
      and self = demo_processor and http = partial_service and now = first_time
      and fs = empty_fs and pdf_id = "''job''" and output_dir = "[''processed_notes'']",
      folded download_results_def]
  have nb: "\<not> blocked_by_file empty_fs ([''processed_notes''] @ [strftime first_time])"
    by (rule not_blocked_empty_fs)
  have nd: "\<forall>fmt. empty_fs (output_path [''processed_notes''] (strftime first_time) fmt)
      \<noteq> Some Directory"
    by (simp add: empty_fs_def)
  obtain out where o: "fst ?r = Inr out" using t nb nd by blast
  have "dom out = {fmt \<in> fst ` set OUTPUT_FORMATS.
      status_code (partial_service (download_request demo_processor ''job'' fmt)) = 200}"
    using t o by blast
  then have d: "dom out = {''mmd'', ''html''}"
    by (auto simp add: OUTPUT_FORMATS_def partial_service_def download_request_def
        API_ENDPOINTS_download_def)
  then have m: "''mmd'' \<in> dom out" by simp
  have "out ''mmd'' = Some (output_path [''processed_notes''] (strftime first_time) ''mmd'')
    \<and> disk_of (snd ?r) (output_path [''processed_notes''] (strftime first_time) ''mmd'')
       = Some (File (content (partial_service (download_request demo_processor ''job'' ''mmd''))))"
    using t o m by blast
  then have "out ''mmd''
        = Some [''processed_notes'', ''20240517_103000'', ''notes_20240517_103000.mmd'']
    \<and> disk_of (snd ?r)
        [''processed_notes'', ''20240517_103000'', ''notes_20240517_103000.mmd'']
       = Some (File ''data'')"
    by (simp add: strftime_first_time output_path_def partial_service_def
        download_request_def API_ENDPOINTS_download_def)
  then show ?thesis using nb o d by blast
qed




text \<open>
  Claim C2, as stated, fails for two runs started within the same second: the
  timestamp has a resolution of one second, so both runs use the same directory, which
  the second run finds already there, and the same file names, and the second run
  overwrites the files of the first.
\<close>

theorem sequential_runs_same_second_counterexample:
  "returned_path first_run ''mmd''
     = Some [''processed_notes'', ''20240517_103000'', ''notes_20240517_103000.mmd'']
   \<and> returned_path second_run ''mmd''
     = Some [''processed_notes'', ''20240517_103000'', ''notes_20240517_103000.mmd'']
   \<and> disk_of (snd first_run)
       [''processed_notes'', ''20240517_103000'', ''notes_20240517_103000.mmd'']
     = Some (File ''first'')
   \<and> disk_of (snd second_run)
       [''processed_notes'', ''20240517_103000'', ''notes_20240517_103000.mmd'']
     = Some (File ''second'')"
proof -
  have p: "output_path [''processed_notes''] ''20240517_103000'' ''mmd''
      = [''processed_notes'', ''20240517_103000'', ''notes_20240517_103000.mmd'']"
    by (simp add: output_path_def)
  have "returned_path first_run ''mmd''
      = Some (output_path [''processed_notes''] ''20240517_103000'' ''mmd'')"
    by (simp add: returned_path_Inr [OF first_run_outcome(1)])
  moreover have "returned_path second_run ''mmd''
      = Some (output_path [''processed_notes''] ''20240517_103000'' ''mmd'')"
    by (simp add: returned_path_Inr [OF second_run_outcome(1)])
  moreover have "disk_of (snd first_run)
      (output_path [''processed_notes''] ''20240517_103000'' ''mmd'') = Some (File ''first'')"
    by (rule first_run_outcome(2)) simp
  moreover have "disk_of (snd second_run)
      (output_path [''processed_notes''] ''20240517_103000'' ''mmd'') = Some (File ''second'')"
    by (rule second_run_outcome(2)) simp
  ultimately show ?thesis unfolding p by blast
qed

text \<open>
  Claim C2, amended. Take two sequential runs on the same destination whose timestamps
  differ, the first of which returns. The two subdirectories differ; after the second
  run, whether it returned or raised, the subdirectory of the first run is still there
  and every file of the first run holds what that run downloaded. If the second run
  returns, its subdirectory is there too, every file of it holds what the second run
  downloaded, and no file of one run is a file of the other. The second run returns
  whenever, before the first run, no regular file stood at its subdirectory and no
  directory stood where one of its downloaded files goes.
\<close>

theorem sequential_runs_distinct_timestamps:
  "strftime now1 \<noteq> strftime now2 \<Longrightarrow>
   download_results self1 http1 now1 fs pdf_id1 output_dir = (Inr out1, env1) \<Longrightarrow>
   download_results self2 http2 now2 (disk_of env1) pdf_id2 output_dir = (r2, env2) \<Longrightarrow>
   output_dir @ [strftime now1] \<noteq> output_dir @ [strftime now2]
   \<and> disk_of env2 (output_dir @ [strftime now1]) = Some Directory
   \<and> (\<forall>fmt p. out1 fmt = Some p \<longrightarrow>
         p = output_path output_dir (strftime now1) fmt
         \<and> disk_of env2 p = Some (File (content (http1 (download_request self1 pdf_id1 fmt)))))
   \<and> (\<forall>out2. r2 = Inr out2 \<longrightarrow>
         disk_of env2 (output_dir @ [strftime now2]) = Some Directory
         \<and> (\<forall>fmt p. out2 fmt = Some p \<longrightarrow>
               p = output_path output_dir (strftime now2) fmt
               \<and> disk_of env2 p
                 = Some (File (content (http2 (download_request self2 pdf_id2 fmt)))))
         \<and> (\<forall>fmt p fmt' p'. out1 fmt = Some p \<longrightarrow> out2 fmt' = Some p' \<longrightarrow> p \<noteq> p'))
   \<and> (\<not> is_file (fs (output_dir @ [strftime now2]))
       \<and> (\<forall>fmt \<in> fst ` set OUTPUT_FORMATS.
             status_code (http2 (download_request self2 pdf_id2 fmt)) = 200 \<longrightarrow>
             fs (output_path output_dir (strftime now2) fmt) \<noteq> Some Directory) \<longrightarrow>
       (\<exists>out2. r2 = Inr out2))"
proof -
  assume ne: "strftime now1 \<noteq> strftime now2"
    and r1: "download_results self1 http1 now1 fs pdf_id1 output_dir = (Inr out1, env1)"
    and r2: "download_results self2 http2 now2 (disk_of env1) pdf_id2 output_dir = (r2, env2)"
  let ?d1 = "output_dir @ [strftime now1]"
  let ?d2 = "output_dir @ [strftime now2]"
  let ?p1 = "output_path output_dir (strftime now1)"
  let ?p2 = "output_path output_dir (strftime now2)"
  note f1 = download_results_for_returned [OF r1 [unfolded download_results_def]]
  have dne: "?d1 \<noteq> ?d2" using ne by simp
  have keep: "disk_of env2 q = disk_of env1 q"
    if "disk_of env1 q \<noteq> None" "\<And>f. q \<noteq> ?p2 f" for q
  proof -
    have "disk_of (snd (download_results_for OUTPUT_FORMATS self2 http2 now2 (disk_of env1)
          pdf_id2 output_dir)) q
        = (if blocked_by_file (disk_of env1) ?d2 then disk_of env1 q
           else made_dirs (disk_of env1) ?d2 q)"
      using that(2) by (rule download_results_for_frame)
    then show ?thesis
      using r2 made_dirs_kept [of "disk_of env1" q ?d2] that(1) by (simp add: download_results_def)
  qed
  have dir1: "disk_of env2 ?d1 = Some Directory"
  proof -
    have "?d1 \<noteq> ?p2 f" for f by (simp add: output_path_def)
    then have "disk_of env2 ?d1 = disk_of env1 ?d1" using f1(6) by (intro keep) simp_all
    then show ?thesis using f1(6) by simp
  qed
  have w1: "p = ?p1 fmt
      \<and> disk_of env2 p = Some (File (content (http1 (download_request self1 pdf_id1 fmt))))"
    if o: "out1 fmt = Some p" for fmt p
  proof -
    have k: "fmt \<in> fst ` set OUTPUT_FORMATS
        \<and> status_code (http1 (download_request self1 pdf_id1 fmt)) = 200 \<and> p = ?p1 fmt"
      using o by (subst (asm) f1(3)) (simp split: if_splits)
    then have a: "disk_of env1 p
        = Some (File (content (http1 (download_request self1 pdf_id1 fmt))))"
      using f1(4) [of fmt] by simp
    have "p \<noteq> ?p2 f" for f using k ne by (simp add: output_path_inject)
    then have "disk_of env2 p = disk_of env1 p" using a by (intro keep) simp_all
    then show ?thesis using k a by simp
  qed
  have w2: "disk_of env2 ?d2 = Some Directory
      \<and> (\<forall>fmt p. out2 fmt = Some p \<longrightarrow>
            p = ?p2 fmt
            \<and> disk_of env2 p = Some (File (content (http2 (download_request self2 pdf_id2 fmt)))))
      \<and> (\<forall>fmt p fmt' p'. out1 fmt = Some p \<longrightarrow> out2 fmt' = Some p' \<longrightarrow> p \<noteq> p')"
    if r: "r2 = Inr out2" for out2
  proof -
    note f2 = download_results_for_returned [OF r2 [unfolded download_results_def r]]
    have b: "p = ?p2 fmt
        \<and> disk_of env2 p = Some (File (content (http2 (download_request self2 pdf_id2 fmt))))"
      if o: "out2 fmt = Some p" for fmt p
    proof -
      have k: "fmt \<in> fst ` set OUTPUT_FORMATS
          \<and> status_code (http2 (download_request self2 pdf_id2 fmt)) = 200 \<and> p = ?p2 fmt"
        using o by (subst (asm) f2(3)) (simp split: if_splits)
      then show ?thesis using f2(4) [of fmt] by simp
    qed
    have "p \<noteq> p'" if "out1 fmt = Some p" "out2 fmt' = Some p'" for fmt p fmt' p'
      using w1 [OF that(1)] b [OF that(2)] ne by (simp add: output_path_inject)
    then show ?thesis using f2(6) b by blast
  qed
  have ret: "\<exists>out2. r2 = Inr out2"
    if nf: "\<not> is_file (fs ?d2)"
      and nd: "\<forall>fmt \<in> fst ` set OUTPUT_FORMATS.
             status_code (http2 (download_request self2 pdf_id2 fmt)) = 200 \<longrightarrow>
             fs (?p2 fmt) \<noteq> Some Directory"
  proof -
    have ad: "all_dirs (made_dirs fs ?d1) ?d1" using f1(1) by (rule made_dirs_all_dirs)
    have "\<not> is_file (disk_of env1 q)" if q: "q \<noteq> []" "prefix q ?d2" for q
    proof -
      have np: "q \<noteq> ?p1 f" for f using q by (rule output_path_not_dir)
      have m: "disk_of env1 q = made_dirs fs ?d1 q" using np by (rule f1(5))
      have "q = ?d2 \<or> prefix q ?d1" using q(2) by (rule prefix_of_sibling)
      then show ?thesis
      proof
        assume "q = ?d2"
        then have "made_dirs fs ?d1 q = fs ?d2"
          using sibling_not_prefix [of "strftime now2" "strftime now1" output_dir] ne
          by (simp add: made_dirs_other)
        then show ?thesis using m nf by simp
      next
        assume "prefix q ?d1"
        then have "made_dirs fs ?d1 q = Some Directory"
          using ad q(1) by (simp add: all_dirs_iff)
        then show ?thesis using m by simp
      qed
    qed
    then have nb: "\<not> blocked_by_file (disk_of env1) ?d2"
      unfolding blocked_by_file_iff by blast
    have "disk_of env1 (?p2 f) \<noteq> Some Directory"
      if f: "f \<in> fst ` set OUTPUT_FORMATS"
        "status_code (http2 (download_request self2 pdf_id2 f)) = 200" for f
    proof -
      have "?p2 f \<noteq> ?p1 f'" for f' using ne by (simp add: output_path_inject)
      then have "disk_of env1 (?p2 f) = made_dirs fs ?d1 (?p2 f)" by (rule f1(5))
      also have "\<dots> = fs (?p2 f)"
        using output_path_not_prefix by (rule made_dirs_other)
      finally have "disk_of env1 (?p2 f) = fs (?p2 f)" .
      moreover have "fs (?p2 f) \<noteq> Some Directory" using nd f by blast
      ultimately show ?thesis by simp
    qed
    with nb have "\<exists>out env. download_results_for OUTPUT_FORMATS self2 http2 now2
        (disk_of env1) pdf_id2 output_dir = (Inr out, env)"
      by (rule download_results_for_returns)
    then show ?thesis using r2 by (auto simp add: download_results_def)
  qed
  show ?thesis using dne dir1 w1 w2 ret by blast
qed

theorem sequential_runs_distinct_timestamps_witness:
  "strftime first_time \<noteq> strftime later_time
   \<and> returned_path first_run ''mmd''
       = Some [''processed_notes'', ''20240517_103000'', ''notes_20240517_103000.mmd'']
   \<and> returned_path later_run ''mmd''
       = Some [''processed_notes'', ''20240517_103001'', ''notes_20240517_103001.mmd'']
   \<and> disk_of (snd later_run)
       [''processed_notes'', ''20240517_103000'', ''notes_20240517_103000.mmd'']
     = Some (File ''first'')
   \<and> disk_of (snd later_run)
       [''processed_notes'', ''20240517_103001'', ''notes_20240517_103001.mmd'']
     = Some (File ''second'')"
proof -
  have ne: "strftime first_time \<noteq> strftime later_time"
    by (simp add: strftime_first_time strftime_later_time)
  define out1 where "out1 = (\<lambda>f. if f \<in> {''mmd'', ''tex.zip'', ''html''}
      then Some (output_path [''processed_notes''] ''20240517_103000'' f) else None)"
  have fo: "fst first_run = Inr out1" unfolding out1_def by (rule first_run_outcome(1))
  have r1: "download_results demo_processor first_service first_time empty_fs ''job''
      [''processed_notes''] = (Inr out1, snd first_run)"
    using fo by (simp add: first_run_def [symmetric] prod_eq_iff)
  have r2: "download_results demo_processor second_service later_time
      (disk_of (snd first_run)) ''job'' [''processed_notes'']
      = (fst later_run, snd later_run)"
    by (simp add: later_run_def [symmetric])
  note t = sequential_runs_distinct_timestamps [OF ne r1 r2]
  note t3 = t [THEN conjunct2, THEN conjunct2, THEN conjunct1, rule_format]
  note t4 = t [THEN conjunct2, THEN conjunct2, THEN conjunct2, THEN conjunct1, rule_format]
  note t5 = t [THEN conjunct2, THEN conjunct2, THEN conjunct2, THEN conjunct2]
  have nf: "\<not> is_file (empty_fs ([''processed_notes''] @ [strftime later_time]))"
    by (simp add: empty_fs_def)
  have nd: "\<forall>fmt \<in> fst ` set OUTPUT_FORMATS.
      status_code (second_service (download_request demo_processor ''job'' fmt)) = 200 \<longrightarrow>
      empty_fs (output_path [''processed_notes''] (strftime later_time) fmt) \<noteq> Some Directory"
    by (simp add: empty_fs_def)
  obtain out2 where o2: "fst later_run = Inr out2" using t5 nf nd by blast
  have p1: "output_path [''processed_notes''] ''20240517_103000'' ''mmd''
      = [''processed_notes'', ''20240517_103000'', ''notes_20240517_103000.mmd'']"
    by (simp add: output_path_def)
  have p2: "output_path [''processed_notes''] (strftime later_time) ''mmd''
      = [''processed_notes'', ''20240517_103001'', ''notes_20240517_103001.mmd'']"
    by (simp add: output_path_def strftime_later_time)
  have a1: "out1 ''mmd''
      = Some [''processed_notes'', ''20240517_103000'', ''notes_20240517_103000.mmd'']"
    unfolding out1_def p1 [symmetric] by simp
  have m2: "out2 ''mmd''
      = Some [''processed_notes'', ''20240517_103001'', ''notes_20240517_103001.mmd'']"
  proof -
    have "later_run = (Inr out2, snd later_run)" using o2 by (simp add: prod_eq_iff)
    then have "download_results_for OUTPUT_FORMATS demo_processor second_service later_time
        (disk_of (snd first_run)) ''job'' [''processed_notes''] = (Inr out2, snd later_run)"
      unfolding later_run_def download_results_def .
    from download_results_for_returned(3) [OF this]
    have "out2 ''mmd''
        = Some (output_path [''processed_notes''] (strftime later_time) ''mmd'')"
      by (simp add: OUTPUT_FORMATS_keys second_service_def)
    then show ?thesis unfolding p2 .
  qed
  have c1: "content (first_service (download_request demo_processor ''job'' ''mmd'')) = ''first''"
    by (simp add: first_service_def)
  have c2: "content (second_service (download_request demo_processor ''job'' ''mmd'')) = ''second''"
    by (simp add: second_service_def)
  have d1: "disk_of (snd later_run)
       [''processed_notes'', ''20240517_103000'', ''notes_20240517_103000.mmd'']
      = Some (File ''first'')"
    using t3 [OF a1] unfolding c1 by (rule conjunct2)
  have d2: "disk_of (snd later_run)
       [''processed_notes'', ''20240517_103001'', ''notes_20240517_103001.mmd'']
      = Some (File ''second'')"
    using t4 [OF o2, THEN conjunct2, THEN conjunct1, rule_format, OF m2] unfolding c2
    by (rule conjunct2)
  have e1: "returned_path first_run ''mmd''
       = Some [''processed_notes'', ''20240517_103000'', ''notes_20240517_103000.mmd'']"
    unfolding returned_path_Inr [OF fo] by (rule a1)
  have e2: "returned_path later_run ''mmd''
       = Some [''processed_notes'', ''20240517_103001'', ''notes_20240517_103001.mmd'']"
    unfolding returned_path_Inr [OF o2] by (rule m2)
  show ?thesis using ne e1 e2 d1 d2 by (intro conjI)
qed

end
